theory Spec2Isabelle
  imports Main "HOL-Library.Word"
begin

section \<open>The webcam recorder (webcam\_recorder.py): data model\<close>

text \<open>
  The recorder runs one capture process (rpicam-vid) and one transcode process (ffmpeg).
  A single thread reads 8 KiB chunks from the capture process, forwards every chunk to the
  transcode process and, while \<open>is_recording\<close> is set, also appends it to a staging file
  \<open>raw_<timestamp>.tmp\<close> that is renamed to \<open>raw_<timestamp>.h264\<close> when the segment is
  closed. Everything the thread does to the outside world (log lines, process control, file
  operations, sleeps) is recorded, in program order, in the \<open>events\<close> field of the state; what
  the outside world does to the thread (bytes read, clock values, I/O failures, the settings
  thread toggling \<open>is_recording\<close>, the job state) is an explicit input of each iteration.
\<close>

type_synonym bytes = "8 word list"

subsection \<open>datetime.now(), strftime and timedelta.total\_seconds()\<close>

record datetime =
  dt_year :: nat
  dt_month :: nat
  dt_day :: nat
  dt_hour :: nat
  dt_minute :: nat
  dt_second :: nat
  dt_microsecond :: nat

definition digit_char :: "nat \<Rightarrow> char" where
  "digit_char d = ''0123456789'' ! (d mod 10)"

fun nat_digits :: "nat \<Rightarrow> string" where
  "nat_digits n = (if n < 10 then [digit_char n] else nat_digits (n div 10) @ [digit_char n])"

declare nat_digits.simps [simp del]

definition zpad :: "nat \<Rightarrow> nat \<Rightarrow> string" where
  "zpad w n = replicate (w - length (nat_digits n)) CHR ''0'' @ nat_digits n"

text \<open>\<open>strftime("%Y-%m-%d_%H-%M-%S")\<close>: zero-padded decimal fields.\<close>

definition strftime :: "datetime \<Rightarrow> string" where
  "strftime dt =
     zpad 4 (dt_year dt) @ ''-'' @ zpad 2 (dt_month dt) @ ''-'' @ zpad 2 (dt_day dt) @ ''_'' @
     zpad 2 (dt_hour dt) @ ''-'' @ zpad 2 (dt_minute dt) @ ''-'' @ zpad 2 (dt_second dt)"

definition is_leap :: "nat \<Rightarrow> bool" where
  "is_leap y = (y mod 4 = 0 \<and> (y mod 100 \<noteq> 0 \<or> y mod 400 = 0))"

definition days_in_month :: "nat \<Rightarrow> nat \<Rightarrow> int" where
  "days_in_month y m =
     (if m = 2 then (if is_leap y then 29 else 28)
      else if m = 4 \<or> m = 6 \<or> m = 9 \<or> m = 11 then 30 else 31)"

text \<open>The proleptic Gregorian ordinal of a date (day 1 is 0001-01-01).\<close>

definition ymd2ord :: "nat \<Rightarrow> nat \<Rightarrow> nat \<Rightarrow> int" where
  "ymd2ord y m d =
     (let y' = int y - 1
      in y' * 365 + y' div 4 - y' div 100 + y' div 400
         + sum_list (map (days_in_month y) [1..<m]) + int d)"

definition to_microseconds :: "datetime \<Rightarrow> int" where
  "to_microseconds dt =
     (((ymd2ord (dt_year dt) (dt_month dt) (dt_day dt) * 24 + int (dt_hour dt)) * 60
        + int (dt_minute dt)) * 60 + int (dt_second dt)) * 1000000 + int (dt_microsecond dt)"

text \<open>
  \<open>(now - start).total_seconds() >= segment_duration * 60\<close>, compared exactly in
  microseconds (the clock may step backwards, so the difference is an \<open>int\<close>).
\<close>

definition segment_expired :: "datetime \<Rightarrow> datetime \<Rightarrow> int \<Rightarrow> bool" where
  "segment_expired now start segment_duration =
     (to_microseconds now - to_microseconds start \<ge> segment_duration * 60 * 1000000)"

subsection \<open>pathlib: paths, suffix and with\_suffix\<close>

text \<open>A path is a directory and a file name inside it (\<open>save_dir / name\<close>).\<close>

type_synonym path = "string \<times> string"

definition rfind_dot :: "string \<Rightarrow> int" where
  "rfind_dot name =
     (let k = length (takeWhile (\<lambda>c. c \<noteq> CHR ''.'') (rev name))
      in if k = length name then - 1 else int (length name) - 1 - int k)"

definition suffix :: "string \<Rightarrow> string" where
  "suffix name =
     (let i = rfind_dot name
      in if 0 < i \<and> i < int (length name) - 1 then drop (nat i) name else [])"

text \<open>
  \<open>PurePath.with_suffix\<close> on the last component. Its ValueError cases (an empty name, a
  suffix that is not \<open>.xyz\<close>) cannot occur at the call sites: the suffix is the literal
  \<open>.tmp\<close> and the name starts with \<open>raw_\<close>.
\<close>

definition with_suffix_name :: "string \<Rightarrow> string \<Rightarrow> string" where
  "with_suffix_name name sfx =
     (let old_suffix = suffix name
      in if old_suffix = [] then name @ sfx
         else take (length name - length old_suffix) name @ sfx)"

definition with_suffix :: "path \<Rightarrow> string \<Rightarrow> path" where
  "with_suffix p sfx = (fst p, with_suffix_name (snd p) sfx)"

text \<open>The glob \<open>raw_*.h264\<close> of the final naming pattern, on a file name.\<close>

definition matches_final_pattern :: "string \<Rightarrow> bool" where
  "matches_final_pattern name =
     (length name \<ge> 9 \<and> take 4 name = ''raw_'' \<and> drop (length name - 5) name = ''.h264'')"

subsection \<open>Configuration, handles, events and the recorder state\<close>

record config =
  save_dir :: string
  hls_dir :: string
  segment_duration :: int
  width :: int
  height :: int
  framerate :: int
  vflip :: bool

datatype proc_kind = Capture | Transcode

text \<open>A \<open>subprocess.Popen\<close> object: which program it runs and the pid the OS gave it.\<close>

datatype proc = Proc proc_kind nat

text \<open>A Python file object opened with mode \<open>wb\<close>.\<close>

record file_obj =
  f_path :: path
  f_closed :: bool

datatype level = Info | Warning | Error

datatype event =
    Log level string
  | Unlink path
  | Spawn proc "string list"
  | StdinWrite proc bytes
  | StdinClose proc
  | Terminate proc
  | WaitFor proc "nat option"
  | Kill proc
  | FileOpen path
  | FileWrite path bytes
  | FileClose path
  | FileRename path path
  | Sleep nat

record recorder =
  is_recording :: bool
  camera_process :: "proc option"
  ffmpeg_process :: "proc option"
  current_file_handle :: "file_obj option"
  files :: "path \<rightharpoonup> bytes"
  events :: "event list"

definition emit :: "event list \<Rightarrow> recorder \<Rightarrow> recorder" where
  "emit es s = s\<lparr>events := events s @ es\<rparr>"

definition logger :: "level \<Rightarrow> string \<Rightarrow> recorder \<Rightarrow> recorder" where
  "logger lv msg s = emit [Log lv msg] s"

section \<open>set\_is\_recording\<close>

text \<open>
  Two statements of \<open>set_is_recording\<close> call into the host framework, which is not part of
  this repository: the assignment to \<open>is_recording\<close>, a published setting (the framework's
  attribute hook runs on it), and \<open>logger.info\<close>. What each of them does is an input of the
  call: it returns, or it raises an exception with the given text; for an assignment that
  raises, the input also tells whether the attribute was stored before the exception. The
  function has no handler, so an exception of either call is the result of the call
  (\<open>Some\<close> of its text, with the state reached), and \<open>None\<close> says that the call returned.
\<close>

datatype call = Returns | Raises string

record setting_in =
  s_assign :: call
  s_stored :: bool
  s_log :: call

definition set_is_recording_call ::
  "setting_in \<Rightarrow> bool \<Rightarrow> recorder \<Rightarrow> string option \<times> recorder" where
  "set_is_recording_call env v s =
     (if v = is_recording s then (None, s)
      else (case s_assign env of
              Raises msg \<Rightarrow> (Some msg, if s_stored env then s\<lparr>is_recording := v\<rparr> else s)
            | Returns \<Rightarrow>
                let s1 = s\<lparr>is_recording := v\<rparr>
                in (case s_log env of
                      Raises msg \<Rightarrow> (Some msg, s1)
                    | Returns \<Rightarrow>
                        (None,
                         logger Info (''Recording '' @ (if v then ''enabled'' else ''disabled''))
                           s1))))"

text \<open>
  The calls the streaming loop observes are those of the settings thread that returned:
  \<open>set_is_recording v\<close> is the state such a call leaves.
\<close>

definition calls_return :: setting_in where
  "calls_return = \<lparr>s_assign = Returns, s_stored = True, s_log = Returns\<rparr>"

definition set_is_recording :: "bool \<Rightarrow> recorder \<Rightarrow> recorder" where
  "set_is_recording v s = snd (set_is_recording_call calls_return v s)"


section \<open>File operations on the archive directory\<close>

text \<open>
  \<open>open(path, 'wb')\<close> creates or truncates the file; \<open>write\<close> followed by \<open>flush\<close> appends
  to it; \<open>close\<close> marks the object closed (closing a closed file does nothing);
  \<open>rename\<close> moves the content to the new name, replacing a file of that name.
\<close>

definition file_open :: "path \<Rightarrow> recorder \<Rightarrow> recorder" where
  "file_open p s =
     emit [FileOpen p]
       (s\<lparr>current_file_handle := Some \<lparr>f_path = p, f_closed = False\<rparr>,
          files := (files s)(p \<mapsto> [])\<rparr>)"

definition file_write :: "path \<Rightarrow> bytes \<Rightarrow> recorder \<Rightarrow> recorder" where
  "file_write p data s =
     emit [FileWrite p data]
       (s\<lparr>files := (files s)(p \<mapsto> (case files s p of None \<Rightarrow> [] | Some c \<Rightarrow> c) @ data)\<rparr>)"

definition close_current :: "recorder \<Rightarrow> recorder" where
  "close_current s =
     (case current_file_handle s of
        None \<Rightarrow> s
      | Some h \<Rightarrow>
          if f_closed h then s
          else emit [FileClose (f_path h)]
                 (s\<lparr>current_file_handle := Some (h\<lparr>f_closed := True\<rparr>)\<rparr>))"

definition file_rename :: "path \<Rightarrow> path \<Rightarrow> recorder \<Rightarrow> recorder" where
  "file_rename src dst s =
     emit [FileRename src dst] (s\<lparr>files := ((files s)(src := None))(dst := files s src)\<rparr>)"

definition str_path :: "path \<Rightarrow> string" where
  "str_path p = fst p @ ''/'' @ snd p"

section \<open>One chunk of the relay loop\<close>

text \<open>
  What one iteration of the inner \<open>while True\<close> observes: the calls of
  \<open>set_is_recording\<close> the settings thread made (and that returned) since the previous
  chunk, the bytes
  \<open>read(8192)\<close> returned (empty at end of stream), whether the write to the transcode
  process succeeded, the three readings of the clock, and which archive operation, if
  reached, raises an OS error (a failing write leaves a prefix of the chunk in the file).
\<close>

datatype fault = NoFault | CloseFails | RenameFails | OpenFails | WriteFails nat

record chunk_in =
  c_toggles :: "bool list"
  c_data :: bytes
  c_hls_ok :: bool
  c_now_check :: datetime
  c_now_stamp :: datetime
  c_now_start :: datetime
  c_fault :: fault
  c_errmsg :: string

text \<open>The two local variables of the loop that describe the open segment.\<close>

record locals =
  current_segment_start :: "datetime option"
  current_file_path :: "path option"

datatype flow = Continue | Break | Raise string

text \<open>Lines 171-175: close the previous file and promote its staging file.\<close>

definition close_previous :: "chunk_in \<Rightarrow> locals \<Rightarrow> recorder \<Rightarrow> flow \<times> recorder" where
  "close_previous inp l s =
     (case current_file_handle s of
        None \<Rightarrow> (Continue, s)
      | Some h \<Rightarrow>
          let s1 = close_current s
          in if c_fault inp = CloseFails \<and> \<not> f_closed h then (Raise (c_errmsg inp), s1)
             else (case current_file_path l of
                     None \<Rightarrow> (Continue, s1)
                   | Some p \<Rightarrow>
                       if files s1 (with_suffix p ''.tmp'') \<noteq> None then
                         if c_fault inp = RenameFails then (Raise (c_errmsg inp), s1)
                         else (Continue,
                               logger Info (''Completed recording segment: '' @ str_path p)
                                 (file_rename (with_suffix p ''.tmp'') p s1))
                       else (Continue, s1)))"

text \<open>Lines 178-183: name and open the next segment.\<close>

definition final_path :: "config \<Rightarrow> datetime \<Rightarrow> path" where
  "final_path cfg now = (save_dir cfg, ''raw_'' @ strftime now @ ''.h264'')"

definition start_segment ::
  "config \<Rightarrow> chunk_in \<Rightarrow> locals \<Rightarrow> recorder \<Rightarrow> flow \<times> recorder \<times> locals" where
  "start_segment cfg inp l s =
     (let p = final_path cfg (c_now_stamp inp);
          temp_file_path = with_suffix p ''.tmp'';
          l1 = l\<lparr>current_file_path := Some p\<rparr>
      in if c_fault inp = OpenFails then (Raise (c_errmsg inp), s, l1)
         else (Continue, file_open temp_file_path s,
               l1\<lparr>current_segment_start := Some (c_now_start inp)\<rparr>))"

text \<open>Lines 186-188: append the chunk to the open file.\<close>

definition write_chunk :: "chunk_in \<Rightarrow> recorder \<Rightarrow> flow \<times> recorder" where
  "write_chunk inp s =
     (case current_file_handle s of
        None \<Rightarrow> (Continue, s)
      | Some h \<Rightarrow>
          if f_closed h then (Raise ''write to closed file'', s)
          else (case c_fault inp of
                  WriteFails n \<Rightarrow>
                    (Raise (c_errmsg inp), file_write (f_path h) (take n (c_data inp)) s)
                | _ \<Rightarrow> (Continue, file_write (f_path h) (c_data inp) s)))"

text \<open>Lines 166-188: the branch taken when \<open>is_recording\<close> is set.\<close>

definition record_chunk ::
  "config \<Rightarrow> chunk_in \<Rightarrow> locals \<Rightarrow> recorder \<Rightarrow> flow \<times> recorder \<times> locals" where
  "record_chunk cfg inp l s =
     (if (case current_segment_start l of
            None \<Rightarrow> True
          | Some start \<Rightarrow> segment_expired (c_now_check inp) start (segment_duration cfg))
      then (case close_previous inp l s of
              (Continue, s1) \<Rightarrow>
                (case start_segment cfg inp l s1 of
                   (Continue, s2, l2) \<Rightarrow>
                     (case write_chunk inp s2 of (fl, s3) \<Rightarrow> (fl, s3, l2))
                 | (fl, s2, l2) \<Rightarrow> (fl, s2, l2))
            | (fl, s1) \<Rightarrow> (fl, s1, l))
      else (case write_chunk inp s of (fl, s3) \<Rightarrow> (fl, s3, l)))"

text \<open>Lines 190-198: the branch taken when \<open>is_recording\<close> is clear.\<close>

definition stop_segment :: "chunk_in \<Rightarrow> locals \<Rightarrow> recorder \<Rightarrow> flow \<times> recorder \<times> locals" where
  "stop_segment inp l s =
     (case current_file_handle s of
        None \<Rightarrow> (Continue, s, l)
      | Some h \<Rightarrow>
          let s1 = close_current s
          in if c_fault inp = CloseFails \<and> \<not> f_closed h then (Raise (c_errmsg inp), s1, l)
             else
               let s2 = s1\<lparr>current_file_handle := None\<rparr>;
                   l0 = \<lparr>current_segment_start = None, current_file_path = None\<rparr>
               in (case current_file_path l of
                     None \<Rightarrow> (Continue, s2, l0)
                   | Some p \<Rightarrow>
                       if files s2 (with_suffix p ''.tmp'') \<noteq> None then
                         if c_fault inp = RenameFails then (Raise (c_errmsg inp), s2, l)
                         else (Continue,
                               logger Info (''Completed recording segment: '' @ str_path p)
                                 (file_rename (with_suffix p ''.tmp'') p s2), l0)
                       else (Continue, s2, l0)))"

text \<open>
  Lines 152-198: one iteration. A \<open>None\<close> process field makes the attribute access raise
  (AttributeError is not caught by the handler around the write to the transcode process).
\<close>

definition relay_step ::
  "config \<Rightarrow> chunk_in \<Rightarrow> recorder \<times> locals \<Rightarrow> flow \<times> recorder \<times> locals" where
  "relay_step cfg inp sl =
     (let s = fold set_is_recording (c_toggles inp) (fst sl); l = snd sl
      in case camera_process s of
           None \<Rightarrow> (Raise ''NoneType object has no attribute stdout'', s, l)
         | Some cam \<Rightarrow>
             if c_data inp = [] then (Break, s, l)
             else (case ffmpeg_process s of
                     None \<Rightarrow> (Raise ''NoneType object has no attribute stdin'', s, l)
                   | Some ff \<Rightarrow>
                       if \<not> c_hls_ok inp
                       then (Break, logger Warning ''HLS stream disconnected'' s, l)
                       else
                         let s1 = emit [StdinWrite ff (c_data inp)] s
                         in if is_recording s1 then record_chunk cfg inp l s1
                            else stop_segment inp l s1))"

text \<open>
  The inner loop on the chunks read so far: it stops at the first iteration that breaks or
  raises, and is otherwise still running (\<open>Continue\<close>), about to read again.
\<close>

fun relay_steps ::
  "config \<Rightarrow> chunk_in list \<Rightarrow> recorder \<times> locals \<Rightarrow> flow \<times> recorder \<times> locals" where
  "relay_steps cfg [] sl = (Continue, sl)"
| "relay_steps cfg (inp # inps) sl =
     (case relay_step cfg inp sl of
        (Continue, sl') \<Rightarrow> relay_steps cfg inps sl'
      | (fl, sl') \<Rightarrow> (fl, sl'))"

text \<open>
  The whole inner loop on the chunks one capture process delivers: after the last of them
  \<open>read\<close> returns the empty string (end of stream) and the loop breaks.
\<close>

definition relay_loop ::
  "config \<Rightarrow> chunk_in list \<Rightarrow> recorder \<times> locals \<Rightarrow> flow \<times> recorder \<times> locals" where
  "relay_loop cfg inps sl =
     (case relay_steps cfg inps sl of
        (Continue, sl') \<Rightarrow> (Break, sl')
      | (fl, sl') \<Rightarrow> (fl, sl'))"

section \<open>The pipeline: cleaning, spawning, relaying, reaping\<close>

text \<open>The job states of the host framework; the loop only reads the state.\<close>

datatype job_state = Init | Ready | Sleeping | Lost | Disconnected

definition str_int :: "int \<Rightarrow> string" where
  "str_int i = (if i < 0 then ''-'' @ nat_digits (nat (- i)) else nat_digits (nat i))"

text \<open>\<open>rpicam_cmd.insert(-2, "--vflip")\<close> puts the flag before the last two arguments.\<close>

definition rpicam_cmd :: "config \<Rightarrow> string list" where
  "rpicam_cmd cfg =
     (let cmd = [''rpicam-vid'', ''-t'', ''0'',
                 ''--width'', str_int (width cfg),
                 ''--height'', str_int (height cfg),
                 ''--framerate'', str_int (framerate cfg),
                 ''--nopreview'', ''--codec'', ''h264'', ''--profile'', ''high'',
                 ''--inline'', ''--level'', ''4.2'', ''-o'', ''-'']
      in if vflip cfg
         then take (length cmd - 2) cmd @ [''--vflip''] @ drop (length cmd - 2) cmd
         else cmd)"

definition ffmpeg_cmd :: "config \<Rightarrow> string list" where
  "ffmpeg_cmd cfg =
     [''ffmpeg'', ''-nostdin'', ''-f'', ''h264'', ''-i'', ''-'', ''-c'', ''copy'',
      ''-f'', ''hls'', ''-hls_time'', ''2'', ''-hls_list_size'', ''5'',
      ''-hls_flags'', ''delete_segments'', str_path (hls_dir cfg, ''webcam.m3u8'')]"

text \<open>
  What one iteration of the outer loop observes: the job state at the \<open>while\<close> test and
  after the pipeline ended, the names found in the live-output directory and the index of
  the \<open>unlink\<close> that fails (if any), the pids of the two spawned processes (\<open>None\<close>: Popen
  raises), the chunks, the exit status \<open>wait()\<close> returns for each process (\<open>None\<close>: the
  process never exits, so \<open>wait()\<close> never returns), and whether closing the transcode
  process's stdin succeeds.
\<close>

record pipeline_in =
  p_state_at_check :: job_state
  p_hls_listing :: "string list"
  p_unlink_fails_at :: "nat option"
  p_camera_spawn :: "nat option"
  p_ffmpeg_spawn :: "nat option"
  p_chunks :: "chunk_in list"
  p_camera_exit :: "int option"
  p_stdin_close_ok :: bool
  p_ffmpeg_exit :: "int option"
  p_state_at_exit :: job_state
  p_errmsg :: string

definition glob_webcam_ts :: "string \<Rightarrow> bool" where
  "glob_webcam_ts name =
     (length name \<ge> 9 \<and> take 6 name = ''webcam'' \<and> drop (length name - 3) name = ''.ts'')"

text \<open>
  \<open>_clean_old_hls_segments\<close>: unlink the fragments, then the manifest; any exception is
  caught here and logged as a warning.
\<close>

definition clean_old_hls_segments :: "config \<Rightarrow> pipeline_in \<Rightarrow> recorder \<Rightarrow> recorder" where
  "clean_old_hls_segments cfg inp s =
     (let targets = filter glob_webcam_ts (p_hls_listing inp)
                    @ filter (\<lambda>n. n = ''webcam.m3u8'') (p_hls_listing inp);
          unlinks = map (\<lambda>n. Unlink (hls_dir cfg, n)) targets
      in case p_unlink_fails_at inp of
           None \<Rightarrow> emit unlinks s
         | Some k \<Rightarrow>
             if k < length targets
             then logger Warning (''Failed to clean old HLS segments: '' @ p_errmsg inp)
                    (emit (take k unlinks) s)
             else emit unlinks s)"

text \<open>
  How the \<open>try\<close> block of one iteration ends: it ran to its end, it raised an exception
  (with the exception's text), or it is stuck in a \<open>wait()\<close> that never returns.
\<close>

datatype outcome = Completed | Raised string | Stuck

text \<open>Lines 200-207: after the relay loop ended without an exception.\<close>

definition reap_processes :: "pipeline_in \<Rightarrow> recorder \<Rightarrow> outcome \<times> recorder" where
  "reap_processes inp s =
     (case camera_process s of
        None \<Rightarrow> (Raised ''NoneType object has no attribute wait'', s)
      | Some cam \<Rightarrow>
          let s1 = emit [WaitFor cam None] s
          in case p_camera_exit inp of
               None \<Rightarrow> (Stuck, s1)
             | Some returncode \<Rightarrow>
                 (case ffmpeg_process s1 of
                    None \<Rightarrow> (Raised ''NoneType object has no attribute stdin'', s1)
                  | Some ff \<Rightarrow>
                      if \<not> p_stdin_close_ok inp then (Raised (p_errmsg inp), s1)
                      else
                        let s2 = emit [StdinClose ff, WaitFor ff None] s1
                        in case p_ffmpeg_exit inp of
                             None \<Rightarrow> (Stuck, s2)
                           | Some _ \<Rightarrow>
                               if returncode \<noteq> 0 \<and> p_state_at_exit inp \<noteq> Disconnected
                               then (Completed,
                                     emit [Sleep 5]
                                       (logger Error
                                          ''Camera streaming failed, restarting in 5 seconds'' s2))
                               else (Completed, s2)))"

text \<open>
  Lines 145-146: the two Popen calls. The flag tells whether both returned; it is
  \<open>False\<close> when one of them raised.
\<close>

definition spawn_pipeline :: "config \<Rightarrow> pipeline_in \<Rightarrow> recorder \<Rightarrow> bool \<times> recorder" where
  "spawn_pipeline cfg inp s =
     (case p_camera_spawn inp of
        None \<Rightarrow> (False, s)
      | Some cpid \<Rightarrow>
          let cam = Proc Capture cpid;
              s2 = emit [Spawn cam (rpicam_cmd cfg)] (s\<lparr>camera_process := Some cam\<rparr>)
          in case p_ffmpeg_spawn inp of
               None \<Rightarrow> (False, s2)
             | Some fpid \<Rightarrow>
                 let ff = Proc Transcode fpid
                 in (True, emit [Spawn ff (ffmpeg_cmd cfg)] (s2\<lparr>ffmpeg_process := Some ff\<rparr>)))"

definition fresh_locals :: locals where
  "fresh_locals = \<lparr>current_segment_start = None, current_file_path = None\<rparr>"

text \<open>Lines 113-207: the \<open>try\<close> block of the outer loop.\<close>

definition try_block :: "config \<Rightarrow> pipeline_in \<Rightarrow> recorder \<Rightarrow> outcome \<times> recorder" where
  "try_block cfg inp s =
     (case spawn_pipeline cfg inp (clean_old_hls_segments cfg inp s) of
        (False, s2) \<Rightarrow> (Raised (p_errmsg inp), s2)
      | (True, s3) \<Rightarrow>
          (case relay_loop cfg (p_chunks inp) (s3, fresh_locals) of
             (Raise msg, s4, l4) \<Rightarrow> (Raised msg, s4)
           | (fl, s4, l4) \<Rightarrow> reap_processes inp s4))"

datatype status = Finished | Blocked

text \<open>
  Lines 112-211: the body of the outer loop, the \<open>try\<close> block and its handler
  \<open>except Exception\<close>, which logs the exception and sleeps five seconds.
\<close>

definition pipeline_iteration :: "config \<Rightarrow> pipeline_in \<Rightarrow> recorder \<Rightarrow> status \<times> recorder" where
  "pipeline_iteration cfg inp s =
     (case try_block cfg inp s of
        (Completed, s') \<Rightarrow> (Finished, s')
      | (Raised msg, s') \<Rightarrow>
          (Finished,
           emit [Sleep 5] (logger Error (''Error in camera streaming loop: '' @ msg) s'))
      | (Stuck, s') \<Rightarrow> (Blocked, s'))"

text \<open>
  \<open>_camera_streaming_loop\<close>, run on the observations of finitely many iterations: it has
  left the loop (\<open>Exited\<close>), is stuck in a \<open>wait()\<close> that never returns (\<open>Hung\<close>), or is
  about to start the next iteration (\<open>Running\<close>).
\<close>

datatype run = Running | Exited | Hung

fun camera_streaming_loop :: "config \<Rightarrow> pipeline_in list \<Rightarrow> recorder \<Rightarrow> run \<times> recorder" where
  "camera_streaming_loop cfg [] s = (Running, s)"
| "camera_streaming_loop cfg (inp # inps) s =
     (if p_state_at_check inp = Disconnected then (Exited, s)
      else (case pipeline_iteration cfg inp s of
              (Blocked, s') \<Rightarrow> (Hung, s')
            | (Finished, s') \<Rightarrow> camera_streaming_loop cfg inps s'))"

section \<open>Stopping\<close>

text \<open>
  \<open>terminate()\<close>, \<open>wait(timeout=10)\<close> and, when that times out, \<open>kill()\<close> and
  \<open>wait()\<close>. The argument tells whether the process exits within ten seconds of the
  termination request.
\<close>

definition stop_process :: "bool \<Rightarrow> proc \<Rightarrow> event list" where
  "stop_process exits_in_time p =
     [Terminate p, WaitFor p (Some 10)]
     @ (if exits_in_time then [] else [Kill p, WaitFor p None])"

definition stop_camera_streaming :: "(proc \<Rightarrow> bool) \<Rightarrow> recorder \<Rightarrow> recorder" where
  "stop_camera_streaming exits_in_time s =
     (let s1 = logger Info ''Stopping camera streaming'' s;
          s2 = (case camera_process s1 of
                  None \<Rightarrow> s1
                | Some p \<Rightarrow> (emit (stop_process (exits_in_time p) p) s1)\<lparr>camera_process := None\<rparr>);
          s3 = (case ffmpeg_process s2 of
                  None \<Rightarrow> s2
                | Some p \<Rightarrow> (emit (stop_process (exits_in_time p) p) s2)\<lparr>ffmpeg_process := None\<rparr>)
      in case current_file_handle s3 of
           None \<Rightarrow> s3
         | Some h \<Rightarrow> (close_current s3)\<lparr>current_file_handle := None\<rparr>)"

text \<open>\<open>on_disconnected\<close>: after the framework's own handler, stop the streaming.\<close>

definition on_disconnected :: "(proc \<Rightarrow> bool) \<Rightarrow> recorder \<Rightarrow> recorder" where
  "on_disconnected exits_in_time s = stop_camera_streaming exits_in_time s"

text \<open>The attributes after \<open>__init__\<close>, on a given content of the file system.\<close>

definition init_recorder :: "(path \<rightharpoonup> bytes) \<Rightarrow> recorder" where
  "init_recorder fs =
     \<lparr>is_recording = False, camera_process = None, ffmpeg_process = None,
      current_file_handle = None, files = fs, events = []\<rparr>"

section \<open>Auxiliary notions for the properties\<close>

text \<open>The events that act on one of the two processes.\<close>

definition is_proc_event :: "event \<Rightarrow> bool" where
  "is_proc_event e =
     (case e of
        Terminate _ \<Rightarrow> True | WaitFor _ _ \<Rightarrow> True | Kill _ \<Rightarrow> True
      | Spawn _ _ \<Rightarrow> True | StdinWrite _ _ \<Rightarrow> True | StdinClose _ \<Rightarrow> True
      | _ \<Rightarrow> False)"

text \<open>
  The staged-write discipline, checked on a trace of events. The checker carries the set of
  paths that are open for writing and the set of paths that were closed after being written
  and not touched since. A file is only opened or written under a name that does not match
  the final pattern, is written only while open, and a rename takes a closed file with a
  non-final name to a name that matches the final pattern.
\<close>

type_synonym staging = "path set \<times> path set"

fun track1 :: "staging \<Rightarrow> event \<Rightarrow> staging" where
  "track1 (opn, done) (FileOpen p) = (insert p opn, done - {p})"
| "track1 (opn, done) (FileClose p) = (if p \<in> opn then (opn - {p}, insert p done) else (opn, done))"
| "track1 (opn, done) (FileRename src dst) = (opn, done - {src})"
| "track1 (opn, done) e = (opn, done)"

definition track :: "staging \<Rightarrow> event list \<Rightarrow> staging" where
  "track st es = foldl track1 st es"

fun event_ok :: "staging \<Rightarrow> event \<Rightarrow> bool" where
  "event_ok (opn, done) (FileOpen p) = (\<not> matches_final_pattern (snd p))"
| "event_ok (opn, done) (FileWrite p d) = (\<not> matches_final_pattern (snd p) \<and> p \<in> opn)"
| "event_ok (opn, done) (FileRename src dst) =
     (src \<in> done \<and> src \<notin> opn \<and> \<not> matches_final_pattern (snd src)
      \<and> matches_final_pattern (snd dst))"
| "event_ok (opn, done) e = True"

fun archive_ok :: "staging \<Rightarrow> event list \<Rightarrow> bool" where
  "archive_ok st [] = True"
| "archive_ok st (e # es) = (event_ok st e \<and> archive_ok (track1 st e) es)"

text \<open>The paths the recorder holds open: that of its file handle, unless closed.\<close>

definition open_paths :: "recorder \<Rightarrow> path set" where
  "open_paths s =
     (case current_file_handle s of
        None \<Rightarrow> {}
      | Some h \<Rightarrow> if f_closed h then {} else {f_path h})"

text \<open>
  What a piece of the program does to the archive, from state \<open>s\<close> to state \<open>s'\<close>: it
  appends events that respect the staged-write discipline, and a file with a final name
  either keeps its content or is the target of a rename and not empty.
\<close>

definition archive_step :: "recorder \<Rightarrow> recorder \<Rightarrow> bool" where
  "archive_step s s' =
     (\<exists>new. events s' = events s @ new
        \<and> (\<forall>K. archive_ok (open_paths s, K) new
                \<and> fst (track (open_paths s, K) new) = open_paths s')
        \<and> (\<forall>p. matches_final_pattern (snd p) \<longrightarrow>
               files s' p = files s p
               \<or> (\<exists>src c. FileRename src p \<in> set new \<and> files s' p = Some c \<and> c \<noteq> [])))"

text \<open>
  Between two iterations of the relay loop: either no segment is open, or the file handle
  is open on the staging file of the segment and at least one chunk is in it.
\<close>

definition segment_inv :: "config \<Rightarrow> recorder \<times> locals \<Rightarrow> bool" where
  "segment_inv cfg sl =
     (case current_file_path (snd sl) of
        None \<Rightarrow> current_segment_start (snd sl) = None
      | Some p \<Rightarrow>
          current_segment_start (snd sl) \<noteq> None
          \<and> (\<exists>t. p = final_path cfg t)
          \<and> current_file_handle (fst sl) = Some \<lparr>f_path = with_suffix p ''.tmp'', f_closed = False\<rparr>
          \<and> (\<exists>c. files (fst sl) (with_suffix p ''.tmp'') = Some c \<and> c \<noteq> []))"

text \<open>The events a run appended to the trace of its starting state.\<close>

definition new_events :: "recorder \<Rightarrow> recorder \<Rightarrow> event list" where
  "new_events s s' = drop (length (events s)) (events s')"

text \<open>The events that are not file operations.\<close>

definition no_file_event :: "event \<Rightarrow> bool" where
  "no_file_event e =
     (case e of
        FileOpen _ \<Rightarrow> False | FileWrite _ _ \<Rightarrow> False
      | FileClose _ \<Rightarrow> False | FileRename _ _ \<Rightarrow> False
      | _ \<Rightarrow> True)"

section \<open>A concrete configuration and concrete observations\<close>

definition ex_cfg :: config where
  "ex_cfg = \<lparr>save_dir = ''/data/camera'', hls_dir = ''/www/data'', segment_duration = 15,
             width = 1920, height = 1080, framerate = 30, vflip = True\<rparr>"

definition ex_now :: datetime where
  "ex_now = \<lparr>dt_year = 2024, dt_month = 5, dt_day = 17, dt_hour = 9, dt_minute = 3,
             dt_second = 7, dt_microsecond = 0\<rparr>"

text \<open>A chunk read at \<open>ex_now\<close> that the transcode process accepts.\<close>

definition ex_chunk :: "bool list \<Rightarrow> bytes \<Rightarrow> fault \<Rightarrow> chunk_in" where
  "ex_chunk toggles data fault =
     \<lparr>c_toggles = toggles, c_data = data, c_hls_ok = True, c_now_check = ex_now,
      c_now_stamp = ex_now, c_now_start = ex_now, c_fault = fault,
      c_errmsg = ''No space left on device''\<rparr>"

text \<open>
  An iteration of the outer loop on the given chunks, in which both processes are spawned
  and the capture process exits with the given status (or never).
\<close>

definition ex_pipeline :: "chunk_in list \<Rightarrow> int option \<Rightarrow> pipeline_in" where
  "ex_pipeline chunks camera_exit =
     \<lparr>p_state_at_check = Ready, p_hls_listing = [''webcam3.ts'', ''webcam.m3u8''],
      p_unlink_fails_at = None, p_camera_spawn = Some 100, p_ffmpeg_spawn = Some 101,
      p_chunks = chunks, p_camera_exit = camera_exit, p_stdin_close_ok = True,
      p_ffmpeg_exit = Some 0, p_state_at_exit = Ready, p_errmsg = ''error''\<rparr>"

text \<open>A recorder whose two processes are running.\<close>

definition ex_started :: recorder where
  "ex_started =
     (init_recorder Map.empty)
       \<lparr>camera_process := Some (Proc Capture 100), ffmpeg_process := Some (Proc Transcode 101)\<rparr>"

text \<open>An archive that holds one empty file with a final name, left there by someone else.\<close>

definition ex_old_final :: path where
  "ex_old_final = (''/data/camera'', ''raw_2000-01-01_00-00-00.h264'')"

definition ex_archive :: "path \<rightharpoonup> bytes" where
  "ex_archive = [ex_old_final \<mapsto> []]"

text \<open>
  A call of \<open>set_is_recording\<close> during which the logger raises, and one during which the
  assignment to the published setting raises before the attribute is stored.
\<close>

definition ex_log_raises :: setting_in where
  "ex_log_raises = \<lparr>s_assign = Returns, s_stored = True, s_log = Raises ''Connection refused''\<rparr>"

definition ex_assign_raises :: setting_in where
  "ex_assign_raises =
     \<lparr>s_assign = Raises ''The client is not currently connected'', s_stored = False,
      s_log = Returns\<rparr>"

text \<open>An iteration that finds the job disconnected, and one whose capture process cannot be started.\<close>

definition ex_disconnect :: pipeline_in where
  "ex_disconnect = (ex_pipeline [] (Some 0))\<lparr>p_state_at_check := Disconnected\<rparr>"

definition ex_no_camera :: pipeline_in where
  "ex_no_camera = (ex_pipeline [] (Some 0))\<lparr>p_camera_spawn := None\<rparr>"

text \<open>An iteration in which the first \<open>unlink\<close> of the cleaning fails.\<close>

definition ex_unlink_fails :: pipeline_in where
  "ex_unlink_fails = (ex_pipeline [] (Some 0))\<lparr>p_unlink_fails_at := Some 0\<rparr>"

text \<open>
  The recorder after \<open>__init__\<close> on an empty archive; an iteration in which the archive
  write of the first chunk fails after one byte, with a second chunk still to come; and an
  iteration whose capture process exits at once with status 1.
\<close>

definition ex_fresh :: recorder where
  "ex_fresh = init_recorder Map.empty"

definition ex_write_fails :: pipeline_in where
  "ex_write_fails =
     ex_pipeline [ex_chunk [True] [1, 2] (WriteFails 1), ex_chunk [] [3] NoFault] (Some 0)"

definition ex_camera_dies :: pipeline_in where
  "ex_camera_dies = ex_pipeline [] (Some 1)"

text \<open>
  An iteration in which the write of the first chunk to the transcode process fails with a
  broken pipe while the capture process, started to run without limit, keeps running.
\<close>

definition ex_hls_breaks :: pipeline_in where
  "ex_hls_breaks =
     ex_pipeline [(ex_chunk [] [1, 2] NoFault)\<lparr>c_hls_ok := False\<rparr>, ex_chunk [] [3] NoFault] None"

text \<open>
  The chunk whose write to the transcode process fails, and an iteration in which that
  happens at the first chunk and the capture process then exits by itself with status 0.
\<close>

definition ex_broken_chunk :: chunk_in where
  "ex_broken_chunk = (ex_chunk [] [1, 2] NoFault)\<lparr>c_hls_ok := False\<rparr>"

definition ex_pipe_closed :: pipeline_in where
  "ex_pipe_closed = ex_pipeline [ex_broken_chunk] (Some 0)"

text \<open>The recorder in the middle of a pipeline, after one chunk was recorded.\<close>

definition ex_recording :: recorder where
  "ex_recording =
     fst (snd (relay_steps ex_cfg [ex_chunk [True] [1, 2] NoFault] (ex_started, fresh_locals)))"

definition ex_final :: path where
  "ex_final = (''/data/camera'', ''raw_2024-05-17_09-03-07.h264'')"

definition ex_staging :: path where
  "ex_staging = (''/data/camera'', ''raw_2024-05-17_09-03-07.tmp'')"

text \<open>The chunks written to the transcode process so far, in order.\<close>

definition delivered :: "recorder \<Rightarrow> bytes list" where
  "delivered s = concat (map (\<lambda>e. case e of StdinWrite _ d \<Rightarrow> [d] | _ \<Rightarrow> []) (events s))"

text \<open>
  The state in which the relay loop of an iteration of the outer loop starts (both processes
  spawned), and the state it has reached after some chunks.
\<close>

definition pipeline_start :: "config \<Rightarrow> pipeline_in \<Rightarrow> recorder \<Rightarrow> recorder" where
  "pipeline_start cfg inp s = snd (spawn_pipeline cfg inp (clean_old_hls_segments cfg inp s))"

definition relay_state :: "config \<Rightarrow> chunk_in list \<Rightarrow> recorder \<Rightarrow> recorder" where
  "relay_state cfg inps s = fst (snd (relay_steps cfg inps (s, fresh_locals)))"

section \<open>What the archive holds\<close>

text \<open>The final names produced by a trace, in order: the targets of its renames.\<close>

definition completed :: "event list \<Rightarrow> path list" where
  "completed es = concat (map (\<lambda>e. case e of FileRename _ dst \<Rightarrow> [dst] | _ \<Rightarrow> []) es)"

definition content :: "(path \<rightharpoonup> bytes) \<Rightarrow> path \<Rightarrow> bytes" where
  "content fs p = (case fs p of None \<Rightarrow> [] | Some c \<Rightarrow> c)"

text \<open>
  The concatenation, in order of production, of the final files produced since state
  \<open>s0\<close>, as they are in state \<open>s\<close>; and the content of the staging file of the open
  segment, if there is one.
\<close>

definition archived :: "recorder \<Rightarrow> recorder \<Rightarrow> bytes" where
  "archived s0 s = concat (map (content (files s)) (completed (new_events s0 s)))"

definition pending :: "recorder \<times> locals \<Rightarrow> bytes" where
  "pending sl =
     (case current_file_path (snd sl) of
        None \<Rightarrow> []
      | Some p \<Rightarrow> content (files (fst sl)) (with_suffix p ''.tmp''))"

text \<open>
  An enabled interval: every chunk is not empty, is observed with \<open>is_recording\<close> set
  (the flag is \<open>b\<close> before the first chunk), is accepted by the transcode process, and no
  archive operation fails.
\<close>

fun recorded_interval :: "bool \<Rightarrow> chunk_in list \<Rightarrow> bool" where
  "recorded_interval b [] = True"
| "recorded_interval b (c # cs) =
     ((if c_toggles c = [] then b else last (c_toggles c))
      \<and> c_data c \<noteq> [] \<and> c_hls_ok c \<and> c_fault c = NoFault
      \<and> recorded_interval True cs)"

text \<open>
  The effect of one chunk iteration on the archive, with \<open>d\<close> the bytes it archives: either
  no file gets a final name and \<open>d\<close> is appended to the open segment, or the open segment is
  promoted to its final name and \<open>d\<close> starts the next one.
\<close>

definition seg_effect :: "recorder \<times> locals \<Rightarrow> recorder \<times> locals \<Rightarrow> bytes \<Rightarrow> bool" where
  "seg_effect sl sl' d =
     (\<exists>es. events (fst sl') = events (fst sl) @ es
        \<and> ((completed es = []
             \<and> (\<forall>q. matches_final_pattern (snd q) \<longrightarrow> files (fst sl') q = files (fst sl) q)
             \<and> pending sl' = pending sl @ d)
            \<or> (\<exists>p. matches_final_pattern (snd p) \<and> completed es = [p]
                  \<and> files (fst sl') p = Some (pending sl) \<and> pending sl \<noteq> []
                  \<and> (\<forall>q. matches_final_pattern (snd q) \<and> q \<noteq> p \<longrightarrow>
                         files (fst sl') q = files (fst sl) q)
                  \<and> pending sl' = d)))"

text \<open>
  The final files produced since \<open>s0\<close> exist under final names. In order of production they
  hold the groups \<open>gs\<close> of chunks, one group of whole chunks per file, and the open segment
  holds the chunks \<open>g\<close>; no group and no chunk is empty.
\<close>

definition group_inv ::
  "recorder \<Rightarrow> recorder \<times> locals \<Rightarrow> bytes list list \<Rightarrow> bytes list \<Rightarrow> bool" where
  "group_inv s0 sl gs g =
     ((\<exists>new. events (fst sl) = events s0 @ new)
      \<and> (\<forall>p\<in>set (completed (new_events s0 (fst sl))).
            matches_final_pattern (snd p) \<and> files (fst sl) p \<noteq> None)
      \<and> map (content (files (fst sl))) (completed (new_events s0 (fst sl))) = map concat gs
      \<and> pending sl = concat g
      \<and> [] \<notin> set gs \<and> [] \<notin> set g)"

text \<open>Sixteen minutes after \<open>ex_now\<close>, and a chunk read then.\<close>

definition ex_later :: datetime where
  "ex_later = ex_now\<lparr>dt_minute := 19\<rparr>"

definition ex_chunk_later :: "bool list \<Rightarrow> bytes \<Rightarrow> chunk_in" where
  "ex_chunk_later toggles data =
     (ex_chunk toggles data NoFault)
       \<lparr>c_now_check := ex_later, c_now_stamp := ex_later, c_now_start := ex_later\<rparr>"

definition ex_final_later :: path where
  "ex_final_later = (''/data/camera'', ''raw_2024-05-17_09-19-07.h264'')"

text \<open>
  An enabled interval of two chunks with a rotation between them, and the chunk at which
  the flag is found cleared.
\<close>

definition ex_interval :: "chunk_in list" where
  "ex_interval = [ex_chunk [True] [1, 2] NoFault, ex_chunk_later [] [3]]"

definition ex_closing :: chunk_in where
  "ex_closing = ex_chunk_later [False] [4]"

text \<open>
  Two iterations of the outer loop: the capture process dies with status 1 after one
  recorded chunk; in the next pipeline the flag is found cleared. And a configuration that
  rotates at every chunk.
\<close>

definition ex_crash_run :: "pipeline_in list" where
  "ex_crash_run =
     [ex_pipeline [ex_chunk [True] [1, 2] NoFault] (Some 1),
      ex_pipeline [ex_chunk [False] [3] NoFault] (Some 0)]"

definition ex_cfg_zero :: config where
  "ex_cfg_zero = ex_cfg\<lparr>segment_duration := 0\<rparr>"

definition ex_same_second :: "chunk_in list" where
  "ex_same_second =
     [ex_chunk [True] [1, 2] NoFault, ex_chunk [] [3] NoFault, ex_chunk [False] [4] NoFault]"

section \<open>Staging names and final names\<close>

lemma suffix_gen:
  assumes "pre \<noteq> []"
  shows "suffix (pre @ ts @ ''.h264'') = ''.h264''"
proof -
  let ?n = "pre @ ts @ ''.h264''"
  have r: "rev ?n = ''462h'' @ (CHR ''.'' # rev ts @ rev pre)" by simp
  have k: "length (takeWhile (\<lambda>c. c \<noteq> CHR ''.'') (rev ?n)) = 4"
    unfolding r by (subst takeWhile_append2) auto
  have len: "length ?n = length pre + length ts + 5" by simp
  have pos: "0 < int (length pre) + int (length ts)" using assms by (cases pre) auto
  have i: "rfind_dot ?n = int (length pre + length ts)"
    unfolding rfind_dot_def k Let_def len by simp
  have "drop (length pre + length ts) ?n = ''.h264''" by simp
  then show ?thesis
    unfolding suffix_def i Let_def len using pos by simp
qed

lemma with_suffix_name_gen:
  assumes "pre \<noteq> []"
  shows "with_suffix_name (pre @ ts @ ''.h264'') ''.tmp'' = pre @ ts @ ''.tmp''"
  unfolding with_suffix_name_def suffix_gen[OF assms] Let_def by simp

lemma with_suffix_final_path:
  "with_suffix (final_path cfg now) ''.tmp'' = (save_dir cfg, ''raw_'' @ strftime now @ ''.tmp'')"
  unfolding with_suffix_def final_path_def fst_conv snd_conv
  by (subst with_suffix_name_gen) simp_all

lemma staging_not_final: "\<not> matches_final_pattern (pre @ ts @ ''.tmp'')"
proof -
  have "drop (length (pre @ ts @ ''.tmp'') - 5) (pre @ ts @ ''.tmp'') \<noteq> ''.h264''"
  proof
    assume a: "drop (length (pre @ ts @ ''.tmp'') - 5) (pre @ ts @ ''.tmp'') = ''.h264''"
    have "last (pre @ ts @ ''.tmp'') = CHR ''p''" by simp
    moreover have "last (drop (length (pre @ ts @ ''.tmp'') - 5) (pre @ ts @ ''.tmp'')) = last (pre @ ts @ ''.tmp'')"
      by (rule last_drop) simp
    ultimately show False using a by simp
  qed
  then show ?thesis unfolding matches_final_pattern_def by blast
qed

lemma final_is_final: "matches_final_pattern (snd (final_path cfg now))"
  by (simp add: matches_final_pattern_def final_path_def)


text \<open>
  C10: the staging path of a segment is its final path with the suffix \<open>.h264\<close> replaced by
  \<open>.tmp\<close>, that is \<open>raw_<timestamp>.tmp\<close>; it does not match the final pattern
  \<open>raw_*.h264\<close>, which the final path does; and the file a segment is opened on is that
  staging path (when \<open>open\<close> raises, the handle is left as it was).
\<close>

theorem staging_path_replaces_suffix:
  "with_suffix (final_path cfg now) ''.tmp'' = (save_dir cfg, ''raw_'' @ strftime now @ ''.tmp'')
   \<and> \<not> matches_final_pattern (snd (with_suffix (final_path cfg now) ''.tmp''))
   \<and> matches_final_pattern (snd (final_path cfg now))
   \<and> current_file_handle (fst (snd (start_segment cfg inp l s))) =
       (if c_fault inp = OpenFails then current_file_handle s
        else Some \<lparr>f_path = (save_dir cfg, ''raw_'' @ strftime (c_now_stamp inp) @ ''.tmp''),
                   f_closed = False\<rparr>)"
proof -
  have a: "\<not> matches_final_pattern (snd (with_suffix (final_path cfg now) ''.tmp''))"
    unfolding with_suffix_final_path snd_conv by (rule staging_not_final)
  have b: "current_file_handle (fst (snd (start_segment cfg inp l s))) =
       (if c_fault inp = OpenFails then current_file_handle s
        else Some \<lparr>f_path = with_suffix (final_path cfg (c_now_stamp inp)) ''.tmp'',
                   f_closed = False\<rparr>)"
    by (simp add: start_segment_def Let_def file_open_def emit_def)
  show ?thesis using a b with_suffix_final_path final_is_final by simp
qed

section \<open>Toggling the recording flag\<close>

lemma set_is_recording_eq:
  "set_is_recording v s =
     (if v = is_recording s then s
      else logger Info (''Recording '' @ (if v then ''enabled'' else ''disabled''))
             (s\<lparr>is_recording := v\<rparr>))"
  by (simp add: set_is_recording_def set_is_recording_call_def calls_return_def)

lemma set_is_recording_call_events:
  "events (snd (set_is_recording_call env v s)) = events s
   \<or> events (snd (set_is_recording_call env v s))
       = events s @ [Log Info (''Recording '' @ (if v then ''enabled'' else ''disabled''))]"
  by (simp add: set_is_recording_call_def logger_def emit_def Let_def split: call.splits)




section \<open>Stopping the pipeline\<close>

lemma is_proc_event_simps [simp]:
  "is_proc_event (Terminate p)" "is_proc_event (WaitFor p t)" "is_proc_event (Kill p)"
  "\<not> is_proc_event (Log lv m)" "\<not> is_proc_event (FileClose q)"
  by (simp_all add: is_proc_event_def)

lemma stop_events:
  "events (stop_camera_streaming g s) = events s @ [Log Info ''Stopping camera streaming'']
     @ (case camera_process s of None \<Rightarrow> [] | Some c \<Rightarrow> stop_process (g c) c)
     @ (case ffmpeg_process s of None \<Rightarrow> [] | Some f \<Rightarrow> stop_process (g f) f)
     @ (case current_file_handle s of None \<Rightarrow> []
        | Some h \<Rightarrow> if f_closed h then [] else [FileClose (f_path h)])"
  by (simp add: stop_camera_streaming_def Let_def logger_def emit_def close_current_def
       split: option.splits)

lemma stop_fields:
  "camera_process (stop_camera_streaming g s) = None"
  "ffmpeg_process (stop_camera_streaming g s) = None"
  "current_file_handle (stop_camera_streaming g s) = None"
  "files (stop_camera_streaming g s) = files s"
  "is_recording (stop_camera_streaming g s) = is_recording s"
  by (simp_all add: stop_camera_streaming_def Let_def logger_def emit_def close_current_def
       split: option.splits)

lemma stop_when_stopped:
  "camera_process s = None \<Longrightarrow> ffmpeg_process s = None \<Longrightarrow> current_file_handle s = None \<Longrightarrow>
   stop_camera_streaming g s = logger Info ''Stopping camera streaming'' s"
  by (simp add: stop_camera_streaming_def Let_def logger_def emit_def)

text \<open>
  C8: the process-control actions of \<open>stop_camera_streaming\<close> are, for the capture process
  and then for the transcode process, each only if its handle is set: a termination request,
  a wait of at most 10 seconds and, only when that wait timed out, a kill followed by an
  unbounded wait for the exit status; so the last action on each process is a wait that
  returned. Both handles are cleared, and a second call only writes its log line.
\<close>

theorem stop_graceful_then_forced:
  "filter is_proc_event (drop (length (events s)) (events (stop_camera_streaming g s))) =
     (case camera_process s of None \<Rightarrow> []
      | Some c \<Rightarrow> if g c then [Terminate c, WaitFor c (Some 10)]
                  else [Terminate c, WaitFor c (Some 10), Kill c, WaitFor c None])
     @ (case ffmpeg_process s of None \<Rightarrow> []
      | Some f \<Rightarrow> if g f then [Terminate f, WaitFor f (Some 10)]
                  else [Terminate f, WaitFor f (Some 10), Kill f, WaitFor f None])
   \<and> camera_process (stop_camera_streaming g s) = None
   \<and> ffmpeg_process (stop_camera_streaming g s) = None
   \<and> stop_camera_streaming g (stop_camera_streaming g s)
       = logger Info ''Stopping camera streaming'' (stop_camera_streaming g s)"
proof -
  have "filter is_proc_event (drop (length (events s)) (events (stop_camera_streaming g s))) =
     (case camera_process s of None \<Rightarrow> []
      | Some c \<Rightarrow> if g c then [Terminate c, WaitFor c (Some 10)]
                  else [Terminate c, WaitFor c (Some 10), Kill c, WaitFor c None])
     @ (case ffmpeg_process s of None \<Rightarrow> []
      | Some f \<Rightarrow> if g f then [Terminate f, WaitFor f (Some 10)]
                  else [Terminate f, WaitFor f (Some 10), Kill f, WaitFor f None])"
    unfolding stop_events by (simp add: stop_process_def split: option.splits)
  then show ?thesis by (simp add: stop_fields stop_when_stopped)
qed


section \<open>The staged-write discipline\<close>

lemma track_append: "track st (a @ b) = track (track st a) b"
  by (simp add: track_def)

lemma track_Nil [simp]: "track st [] = st"
  by (simp add: track_def)

lemma track_Cons: "track st (e # es) = track (track1 st e) es"
  by (simp add: track_def)

lemma archive_ok_append:
  "archive_ok st (a @ b) = (archive_ok st a \<and> archive_ok (track st a) b)"
  by (induction a arbitrary: st) (auto simp: track_Cons)

lemma track1_no_file: "no_file_event e \<Longrightarrow> track1 st e = st"
  by (cases st; cases e) (simp_all add: no_file_event_def)

lemma event_ok_no_file: "no_file_event e \<Longrightarrow> event_ok st e"
  by (cases st; cases e) (simp_all add: no_file_event_def)

lemma track_no_file: "\<forall>e\<in>set es. no_file_event e \<Longrightarrow> track st es = st"
  by (induction es arbitrary: st) (simp_all add: track_Cons track1_no_file)

lemma archive_ok_no_file: "\<forall>e\<in>set es. no_file_event e \<Longrightarrow> archive_ok st es"
  by (induction es arbitrary: st) (simp_all add: event_ok_no_file track1_no_file)

lemma archive_step_refl: "archive_step s s"
  unfolding archive_step_def by (rule exI[of _ "[]"]) simp

lemma archive_step_trans:
  assumes "archive_step s1 s2" "archive_step s2 s3"
  shows "archive_step s1 s3"
proof -
  from assms(1) obtain n1 where e1: "events s2 = events s1 @ n1"
    and k1: "\<And>K. archive_ok (open_paths s1, K) n1"
    and t1: "\<And>K. fst (track (open_paths s1, K) n1) = open_paths s2"
    and f1: "\<And>p. matches_final_pattern (snd p) \<Longrightarrow> files s2 p = files s1 p
               \<or> (\<exists>src c. FileRename src p \<in> set n1 \<and> files s2 p = Some c \<and> c \<noteq> [])"
    unfolding archive_step_def by blast
  from assms(2) obtain n2 where e2: "events s3 = events s2 @ n2"
    and k2: "\<And>K. archive_ok (open_paths s2, K) n2"
    and t2: "\<And>K. fst (track (open_paths s2, K) n2) = open_paths s3"
    and f2: "\<And>p. matches_final_pattern (snd p) \<Longrightarrow> files s3 p = files s2 p
               \<or> (\<exists>src c. FileRename src p \<in> set n2 \<and> files s3 p = Some c \<and> c \<noteq> [])"
    unfolding archive_step_def by blast
  have mid: "\<And>K. track (open_paths s1, K) n1 = (open_paths s2, snd (track (open_paths s1, K) n1))"
    using t1 by (metis prod.collapse)
  have a: "\<And>K. archive_ok (open_paths s1, K) (n1 @ n2)"
    unfolding archive_ok_append using k1 k2 mid by metis
  have b: "\<And>K. fst (track (open_paths s1, K) (n1 @ n2)) = open_paths s3"
    unfolding track_append using t2 mid by metis
  have c: "\<And>p. matches_final_pattern (snd p) \<Longrightarrow> files s3 p = files s1 p
               \<or> (\<exists>src c. FileRename src p \<in> set (n1 @ n2) \<and> files s3 p = Some c \<and> c \<noteq> [])"
  proof -
    fix p :: path assume m: "matches_final_pattern (snd p)"
    from f2[OF m] show "files s3 p = files s1 p
               \<or> (\<exists>src c. FileRename src p \<in> set (n1 @ n2) \<and> files s3 p = Some c \<and> c \<noteq> [])"
    proof
      assume eq: "files s3 p = files s2 p"
      from f1[OF m] show ?thesis
      proof
        assume "files s2 p = files s1 p" then show ?thesis using eq by simp
      next
        assume "\<exists>src c. FileRename src p \<in> set n1 \<and> files s2 p = Some c \<and> c \<noteq> []"
        then show ?thesis using eq by auto
      qed
    next
      assume "\<exists>src c. FileRename src p \<in> set n2 \<and> files s3 p = Some c \<and> c \<noteq> []"
      then show ?thesis by auto
    qed
  qed
  show ?thesis unfolding archive_step_def
    by (rule exI[of _ "n1 @ n2"]) (use e1 e2 a b c in simp)
qed

lemma archive_step_no_file:
  assumes "events s' = events s @ es" "\<forall>e\<in>set es. no_file_event e"
    "current_file_handle s' = current_file_handle s" "files s' = files s"
  shows "archive_step s s'"
  unfolding archive_step_def
  by (rule exI[of _ es])
     (use assms in \<open>simp add: archive_ok_no_file track_no_file open_paths_def\<close>)


lemma no_file_event_simps [simp]:
  "no_file_event (Log lv m)" "no_file_event (Unlink p)" "no_file_event (Spawn pr cmd)"
  "no_file_event (StdinWrite pr d)" "no_file_event (StdinClose pr)" "no_file_event (Terminate pr)"
  "no_file_event (WaitFor pr t)" "no_file_event (Kill pr)" "no_file_event (Sleep n)"
  by (simp_all add: no_file_event_def)

lemma archive_step_close: "archive_step s (close_current s)"
  unfolding archive_step_def
  by (rule exI[of _ "new_events s (close_current s)"])
     (auto simp: close_current_def new_events_def emit_def open_paths_def track_def
           split: option.splits)

lemma close_current_fields [simp]:
  "open_paths (close_current s) = {}"
  "files (close_current s) = files s"
  "is_recording (close_current s) = is_recording s"
  "camera_process (close_current s) = camera_process s"
  "ffmpeg_process (close_current s) = ffmpeg_process s"
  by (auto simp: close_current_def emit_def open_paths_def split: option.splits)

lemma archive_step_drop_handle:
  "open_paths s = {} \<Longrightarrow> archive_step s (s\<lparr>current_file_handle := None\<rparr>)"
  unfolding archive_step_def
  by (rule exI[of _ "[]"]) (simp add: open_paths_def)

lemma archive_step_rename:
  assumes "current_file_handle s = Some \<lparr>f_path = src, f_closed = False\<rparr>"
    "\<not> matches_final_pattern (snd src)" "matches_final_pattern (snd dst)"
    "files s src = Some c" "c \<noteq> []"
  shows "archive_step s (file_rename src dst (close_current s))"
    and "archive_step s (file_rename src dst ((close_current s)\<lparr>current_file_handle := None\<rparr>))"
proof -
  have ne: "src \<noteq> dst" using assms(2,3) by auto
  show "archive_step s (file_rename src dst (close_current s))"
    unfolding archive_step_def
    apply (rule exI[of _ "[FileClose src, FileRename src dst]"])
    using assms ne
    by (auto simp: close_current_def file_rename_def emit_def open_paths_def track_def)
  show "archive_step s (file_rename src dst ((close_current s)\<lparr>current_file_handle := None\<rparr>))"
    unfolding archive_step_def
    apply (rule exI[of _ "[FileClose src, FileRename src dst]"])
    using assms ne
    by (auto simp: close_current_def file_rename_def emit_def open_paths_def track_def)
qed

lemma archive_step_open:
  assumes "open_paths s = {}" "\<not> matches_final_pattern (snd p)"
  shows "archive_step s (file_open p s)"
  unfolding archive_step_def
  apply (rule exI[of _ "[FileOpen p]"])
  using assms by (auto simp: file_open_def emit_def open_paths_def track_def)

lemma archive_step_write:
  assumes "current_file_handle s = Some h" "\<not> f_closed h" "\<not> matches_final_pattern (snd (f_path h))"
  shows "archive_step s (file_write (f_path h) d s)"
proof -
  obtain dir name where q: "f_path h = (dir, name)" by (cases "f_path h")
  show ?thesis
    unfolding archive_step_def
    apply (rule exI[of _ "[FileWrite (f_path h) d]"])
    using assms q by (auto simp: file_write_def emit_def open_paths_def track_def)
qed

lemma archive_step_logger: "archive_step s (logger lv m s)"
  by (rule archive_step_no_file[where es = "[Log lv m]"]) (simp_all add: logger_def emit_def)

lemma archive_step_emit: "\<forall>e\<in>set es. no_file_event e \<Longrightarrow> archive_step s (emit es s)"
  by (rule archive_step_no_file[where es = es]) (simp_all add: emit_def)

lemma archive_step_set_is_recording: "archive_step s (set_is_recording v s)"
  unfolding set_is_recording_eq
  by (auto intro!: archive_step_refl
       archive_step_no_file[where es = "[Log Info (''Recording '' @ (if v then ''enabled'' else ''disabled''))]"]
       simp: logger_def emit_def)

lemma archive_step_toggles: "archive_step s (fold set_is_recording ts s)"
proof (induction ts arbitrary: s)
  case Nil show ?case by (simp add: archive_step_refl)
next
  case (Cons t ts)
  show ?case using archive_step_trans[OF archive_step_set_is_recording Cons.IH] by simp
qed


lemma emit_fields [simp]:
  "events (emit es s) = events s @ es"
  "files (emit es s) = files s"
  "current_file_handle (emit es s) = current_file_handle s"
  "is_recording (emit es s) = is_recording s"
  "camera_process (emit es s) = camera_process s"
  "ffmpeg_process (emit es s) = ffmpeg_process s"
  "open_paths (emit es s) = open_paths s"
  by (simp_all add: emit_def open_paths_def)

lemma logger_fields [simp]:
  "events (logger lv m s) = events s @ [Log lv m]"
  "files (logger lv m s) = files s"
  "current_file_handle (logger lv m s) = current_file_handle s"
  "is_recording (logger lv m s) = is_recording s"
  "camera_process (logger lv m s) = camera_process s"
  "ffmpeg_process (logger lv m s) = ffmpeg_process s"
  "open_paths (logger lv m s) = open_paths s"
  by (simp_all add: logger_def)

lemma file_rename_fields [simp]:
  "events (file_rename src dst s) = events s @ [FileRename src dst]"
  "files (file_rename src dst s) = ((files s)(src := None))(dst := files s src)"
  "current_file_handle (file_rename src dst s) = current_file_handle s"
  "is_recording (file_rename src dst s) = is_recording s"
  "camera_process (file_rename src dst s) = camera_process s"
  "ffmpeg_process (file_rename src dst s) = ffmpeg_process s"
  "open_paths (file_rename src dst s) = open_paths s"
  by (simp_all add: file_rename_def open_paths_def)

lemma file_open_fields [simp]:
  "events (file_open p s) = events s @ [FileOpen p]"
  "files (file_open p s) = (files s)(p \<mapsto> [])"
  "current_file_handle (file_open p s) = Some \<lparr>f_path = p, f_closed = False\<rparr>"
  "is_recording (file_open p s) = is_recording s"
  "camera_process (file_open p s) = camera_process s"
  "ffmpeg_process (file_open p s) = ffmpeg_process s"
  by (simp_all add: file_open_def)

lemma file_write_fields [simp]:
  "events (file_write p d s) = events s @ [FileWrite p d]"
  "files (file_write p d s) = (files s)(p \<mapsto> (case files s p of None \<Rightarrow> [] | Some c \<Rightarrow> c) @ d)"
  "current_file_handle (file_write p d s) = current_file_handle s"
  "is_recording (file_write p d s) = is_recording s"
  "camera_process (file_write p d s) = camera_process s"
  "ffmpeg_process (file_write p d s) = ffmpeg_process s"
  "open_paths (file_write p d s) = open_paths s"
  by (simp_all add: file_write_def open_paths_def)

lemma close_current_handle:
  "current_file_handle (close_current s) = map_option (\<lambda>h. h\<lparr>f_closed := True\<rparr>) (current_file_handle s)"
  by (auto simp: close_current_def split: option.splits)

lemma toggles_fields [simp]:
  "files (fold set_is_recording ts s) = files s"
  "current_file_handle (fold set_is_recording ts s) = current_file_handle s"
  "camera_process (fold set_is_recording ts s) = camera_process s"
  "ffmpeg_process (fold set_is_recording ts s) = ffmpeg_process s"
  by (induction ts arbitrary: s) (simp_all add: set_is_recording_eq)

lemma tmp_not_final: "\<not> matches_final_pattern (snd (with_suffix (final_path cfg t) ''.tmp''))"
  unfolding with_suffix_final_path snd_conv by (rule staging_not_final)

lemma close_previous_step:
  assumes "segment_inv cfg (s, l)" "close_previous inp l s = (fl, s')"
  shows "archive_step s s' \<and> open_paths s' = {} \<and> fl \<noteq> Break"
proof (cases "current_file_handle s")
  case None
  then show ?thesis using assms(2)
    by (auto simp: close_previous_def open_paths_def archive_step_refl)
next
  case (Some h)
  show ?thesis
  proof (cases "current_file_path l")
    case None
    then show ?thesis using assms(2) Some
      by (auto simp: close_previous_def Let_def archive_step_close split: if_splits)
  next
    case (Some p)
    from assms(1) Some obtain t c where p: "p = final_path cfg t"
      and h: "current_file_handle s = Some \<lparr>f_path = with_suffix p ''.tmp'', f_closed = False\<rparr>"
      and c: "files s (with_suffix p ''.tmp'') = Some c" "c \<noteq> []"
      by (auto simp: segment_inv_def)
    have r: "archive_step s (file_rename (with_suffix p ''.tmp'') p (close_current s))"
      by (rule archive_step_rename(1)[OF h _ _ c]) (simp_all add: p tmp_not_final final_is_final)
    have r': "archive_step s (logger Info (''Completed recording segment: '' @ str_path p)
                 (file_rename (with_suffix p ''.tmp'') p (close_current s)))"
      by (rule archive_step_trans[OF r archive_step_logger])
    show ?thesis using assms(2) Some h c r'
      by (auto simp: close_previous_def Let_def archive_step_close split: if_splits)
  qed
qed

lemma start_segment_step:
  assumes "open_paths s = {}" "start_segment cfg inp l s = (fl, s', l')"
  shows "archive_step s s' \<and> fl \<noteq> Break
     \<and> (fl = Continue \<longrightarrow>
          current_file_handle s' = Some \<lparr>f_path = with_suffix (final_path cfg (c_now_stamp inp)) ''.tmp'', f_closed = False\<rparr>
          \<and> files s' (with_suffix (final_path cfg (c_now_stamp inp)) ''.tmp'') = Some []
          \<and> current_file_path l' = Some (final_path cfg (c_now_stamp inp))
          \<and> current_segment_start l' = Some (c_now_start inp))"
  using assms archive_step_open[OF assms(1) tmp_not_final]
  by (auto simp: start_segment_def Let_def archive_step_refl split: if_splits)

lemma write_chunk_step:
  assumes "current_file_handle s = Some h" "\<not> f_closed h" "\<not> matches_final_pattern (snd (f_path h))"
    "write_chunk inp s = (fl, s')"
  shows "archive_step s s' \<and> fl \<noteq> Break \<and> current_file_handle s' = Some h
     \<and> (fl = Continue \<longrightarrow> files s' (f_path h) =
           Some ((case files s (f_path h) of None \<Rightarrow> [] | Some c \<Rightarrow> c) @ c_data inp))"
  using assms archive_step_write[OF assms(1,2,3)]
  by (auto simp: write_chunk_def split: fault.splits)


lemma segment_inv_fresh [simp]: "segment_inv cfg (s, fresh_locals)"
  by (simp add: segment_inv_def fresh_locals_def)

lemma segment_inv_cong:
  "segment_inv cfg (s, l) \<Longrightarrow> current_file_handle s' = current_file_handle s \<Longrightarrow>
   files s' = files s \<Longrightarrow> segment_inv cfg (s', l)"
  by (auto simp: segment_inv_def split: option.splits)

lemma stop_segment_step:
  assumes "segment_inv cfg (s, l)" "stop_segment inp l s = (fl, s', l')"
  shows "archive_step s s' \<and> fl \<noteq> Break \<and> (fl = Continue \<longrightarrow> segment_inv cfg (s', l'))"
proof (cases "current_file_handle s")
  case None
  then show ?thesis using assms
    by (auto simp: stop_segment_def archive_step_refl)
next
  case (Some h)
  have d: "archive_step s ((close_current s)\<lparr>current_file_handle := None\<rparr>)"
    by (rule archive_step_trans[OF archive_step_close archive_step_drop_handle]) simp
  show ?thesis
  proof (cases "current_file_path l")
    case None
    then show ?thesis using assms(2) Some d
      by (auto simp: stop_segment_def Let_def archive_step_close segment_inv_def split: if_splits)
  next
    case (Some p)
    from assms(1) Some obtain t c where p: "p = final_path cfg t"
      and h: "current_file_handle s = Some \<lparr>f_path = with_suffix p ''.tmp'', f_closed = False\<rparr>"
      and c: "files s (with_suffix p ''.tmp'') = Some c" "c \<noteq> []"
      by (auto simp: segment_inv_def)
    have r: "archive_step s (file_rename (with_suffix p ''.tmp'') p
                ((close_current s)\<lparr>current_file_handle := None\<rparr>))"
      by (rule archive_step_rename(2)[OF h _ _ c]) (simp_all add: p tmp_not_final final_is_final)
    have r': "archive_step s (logger Info (''Completed recording segment: '' @ str_path p)
                 (file_rename (with_suffix p ''.tmp'') p
                    ((close_current s)\<lparr>current_file_handle := None\<rparr>)))"
      by (rule archive_step_trans[OF r archive_step_logger])
    show ?thesis using assms(2) Some h c r' d
      by (auto simp: stop_segment_def Let_def archive_step_close segment_inv_def split: if_splits)
  qed
qed

lemma record_chunk_step:
  assumes inv: "segment_inv cfg (s, l)" and ne: "c_data inp \<noteq> []"
    and rc: "record_chunk cfg inp l s = (fl, s', l')"
  shows "archive_step s s' \<and> fl \<noteq> Break \<and> (fl = Continue \<longrightarrow> segment_inv cfg (s', l'))"
proof (cases "case current_segment_start l of None \<Rightarrow> True
          | Some start \<Rightarrow> segment_expired (c_now_check inp) start (segment_duration cfg)")
  case True
  obtain f1 s1 where cp: "close_previous inp l s = (f1, s1)" by (cases "close_previous inp l s")
  from close_previous_step[OF inv cp]
  have a1: "archive_step s s1" and o1: "open_paths s1 = {}" and b1: "f1 \<noteq> Break" by auto
  show ?thesis
  proof (cases "f1 = Continue")
    case False
    then show ?thesis using True rc cp a1 b1
      by (cases f1) (auto simp: record_chunk_def)
  next
    case f1c: True
    obtain f2 s2 l2 where ss: "start_segment cfg inp l s1 = (f2, s2, l2)"
      by (cases "start_segment cfg inp l s1")
    from start_segment_step[OF o1 ss]
    have a2: "archive_step s1 s2" and b2: "f2 \<noteq> Break"
      and c2: "f2 = Continue \<Longrightarrow>
          current_file_handle s2 = Some \<lparr>f_path = with_suffix (final_path cfg (c_now_stamp inp)) ''.tmp'', f_closed = False\<rparr>
          \<and> files s2 (with_suffix (final_path cfg (c_now_stamp inp)) ''.tmp'') = Some []
          \<and> current_file_path l2 = Some (final_path cfg (c_now_stamp inp))
          \<and> current_segment_start l2 = Some (c_now_start inp)" by auto
    have a12: "archive_step s s2" by (rule archive_step_trans[OF a1 a2])
    show ?thesis
    proof (cases "f2 = Continue")
      case False
      then show ?thesis using True rc cp ss f1c a12 b2
        by (cases f2) (auto simp: record_chunk_def)
    next
      case f2c: True
      let ?h = "\<lparr>f_path = with_suffix (final_path cfg (c_now_stamp inp)) ''.tmp'', f_closed = False\<rparr>"
      obtain f3 s3 where wc: "write_chunk inp s2 = (f3, s3)" by (cases "write_chunk inp s2")
      have h2: "current_file_handle s2 = Some ?h" using c2[OF f2c] by simp
      from write_chunk_step[OF h2 _ _ wc]
      have a3: "archive_step s2 s3" and b3: "f3 \<noteq> Break" and h3: "current_file_handle s3 = Some ?h"
        and c3: "f3 = Continue \<Longrightarrow> files s3 (f_path ?h) =
           Some ((case files s2 (f_path ?h) of None \<Rightarrow> [] | Some c \<Rightarrow> c) @ c_data inp)"
        by (auto simp: tmp_not_final)
      have res: "fl = f3" "s' = s3" "l' = l2"
        using True rc cp ss wc f1c f2c by (auto simp: record_chunk_def)
      have "archive_step s s3" by (rule archive_step_trans[OF a12 a3])
      moreover have "f3 = Continue \<Longrightarrow> segment_inv cfg (s3, l2)"
        using c2[OF f2c] h3 c3 ne by (auto simp: segment_inv_def)
      ultimately show ?thesis using res b3 by simp
    qed
  qed
next
  case False
  then obtain st where st: "current_segment_start l = Some st" by (cases "current_segment_start l") auto
  from inv st obtain p t c where lp: "current_file_path l = Some p" and p: "p = final_path cfg t"
      and h: "current_file_handle s = Some \<lparr>f_path = with_suffix p ''.tmp'', f_closed = False\<rparr>"
      and c: "files s (with_suffix p ''.tmp'') = Some c" "c \<noteq> []"
    by (auto simp: segment_inv_def split: option.splits)
  obtain f3 s3 where wc: "write_chunk inp s = (f3, s3)" by (cases "write_chunk inp s")
  from write_chunk_step[OF h _ _ wc]
  have a3: "archive_step s s3" and b3: "f3 \<noteq> Break"
    and h3: "current_file_handle s3 = Some \<lparr>f_path = with_suffix p ''.tmp'', f_closed = False\<rparr>"
    and c3: "f3 = Continue \<Longrightarrow> files s3 (with_suffix p ''.tmp'') =
           Some ((case files s (with_suffix p ''.tmp'') of None \<Rightarrow> [] | Some c \<Rightarrow> c) @ c_data inp)"
    by (auto simp: p tmp_not_final)
  have res: "fl = f3" "s' = s3" "l' = l"
    using False rc wc by (auto simp: record_chunk_def)
  have "f3 = Continue \<Longrightarrow> segment_inv cfg (s3, l)"
    using lp st p h3 c3 c by (auto simp: segment_inv_def)
  then show ?thesis using res a3 b3 by simp
qed

lemma relay_step_inv:
  assumes inv: "segment_inv cfg (s, l)" and rs: "relay_step cfg inp (s, l) = (fl, s', l')"
  shows "archive_step s s' \<and> (fl = Continue \<longrightarrow> segment_inv cfg (s', l'))"
proof -
  let ?s0 = "fold set_is_recording (c_toggles inp) s"
  have a0: "archive_step s ?s0" by (rule archive_step_toggles)
  have i0: "segment_inv cfg (?s0, l)" by (rule segment_inv_cong[OF inv]) simp_all
  show ?thesis
  proof (cases "camera_process ?s0")
    case None
    then have "fl \<noteq> Continue \<and> s' = ?s0" using rs by (auto simp: relay_step_def Let_def)
    then show ?thesis using a0 by simp
  next
    case cam: (Some cam)
    show ?thesis
    proof (cases "c_data inp = []")
      case True
      then have "fl \<noteq> Continue \<and> s' = ?s0" using rs cam by (auto simp: relay_step_def Let_def)
      then show ?thesis using a0 by simp
    next
      case ne: False
      show ?thesis
      proof (cases "ffmpeg_process ?s0")
        case None
        then have "fl \<noteq> Continue \<and> s' = ?s0"
          using rs cam ne by (auto simp: relay_step_def Let_def)
        then show ?thesis using a0 by simp
      next
        case ff: (Some ff)
        show ?thesis
        proof (cases "c_hls_ok inp")
          case False
          then have "fl \<noteq> Continue \<and> s' = logger Warning ''HLS stream disconnected'' ?s0"
            using rs cam ne ff by (auto simp: relay_step_def Let_def)
          then show ?thesis using archive_step_trans[OF a0 archive_step_logger] by simp
        next
          case ok: True
          let ?s1 = "emit [StdinWrite ff (c_data inp)] ?s0"
          have a1: "archive_step s ?s1"
            by (rule archive_step_trans[OF a0 archive_step_emit]) simp
          have i1: "segment_inv cfg (?s1, l)" by (rule segment_inv_cong[OF i0]) simp_all
          have rs': "(if is_recording ?s1 then record_chunk cfg inp l ?s1
                      else stop_segment inp l ?s1) = (fl, s', l')"
            using rs cam ne ff ok by (auto simp: relay_step_def Let_def)
          show ?thesis
          proof (cases "is_recording ?s1")
            case True
            with rs' have "record_chunk cfg inp l ?s1 = (fl, s', l')" by simp
            from record_chunk_step[OF i1 ne this] archive_step_trans[OF a1] show ?thesis by blast
          next
            case False
            with rs' have "stop_segment inp l ?s1 = (fl, s', l')" by simp
            from stop_segment_step[OF i1 this] archive_step_trans[OF a1] show ?thesis by blast
          qed
        qed
      qed
    qed
  qed
qed

lemma relay_steps_inv:
  "segment_inv cfg (s, l) \<Longrightarrow> relay_steps cfg inps (s, l) = (fl, s', l') \<Longrightarrow>
   archive_step s s' \<and> (fl = Continue \<longrightarrow> segment_inv cfg (s', l'))"
proof (induction inps arbitrary: s l)
  case Nil
  then show ?case by (simp add: archive_step_refl)
next
  case (Cons inp inps)
  obtain f1 s1 l1 where st: "relay_step cfg inp (s, l) = (f1, s1, l1)"
    by (cases "relay_step cfg inp (s, l)")
  from relay_step_inv[OF Cons.prems(1) st]
  have a1: "archive_step s s1" and i1: "f1 = Continue \<Longrightarrow> segment_inv cfg (s1, l1)" by auto
  show ?case
  proof (cases "f1 = Continue")
    case True
    then have "relay_steps cfg inps (s1, l1) = (fl, s', l')" using Cons.prems(2) st by simp
    from Cons.IH[OF i1[OF True] this] archive_step_trans[OF a1] show ?thesis by blast
  next
    case False
    then have "fl = f1 \<and> s' = s1 \<and> l' = l1" using Cons.prems(2) st by (cases f1) auto
    then show ?thesis using a1 False by simp
  qed
qed

lemma relay_loop_archive:
  assumes "relay_loop cfg inps (s, fresh_locals) = (fl, s', l')"
  shows "archive_step s s'"
proof -
  obtain f1 s1 l1 where st: "relay_steps cfg inps (s, fresh_locals) = (f1, s1, l1)"
    by (cases "relay_steps cfg inps (s, fresh_locals)")
  have "s' = s1" using assms st by (cases f1) (auto simp: relay_loop_def)
  then show ?thesis using relay_steps_inv[OF segment_inv_fresh st] by simp
qed


lemma archive_step_quiet:
  assumes "\<exists>es. events s' = events s @ es \<and> (\<forall>e\<in>set es. no_file_event e)"
    "current_file_handle s' = current_file_handle s" "files s' = files s"
  shows "archive_step s s'"
  using assms archive_step_no_file by blast

lemma archive_step_clean: "archive_step s (clean_old_hls_segments cfg inp s)"
proof (rule archive_step_quiet)
  show "\<exists>es. events (clean_old_hls_segments cfg inp s) = events s @ es
          \<and> (\<forall>e\<in>set es. no_file_event e)"
    by (auto simp: clean_old_hls_segments_def Let_def split: option.splits dest!: in_set_takeD)
  show "current_file_handle (clean_old_hls_segments cfg inp s) = current_file_handle s"
    by (auto simp: clean_old_hls_segments_def Let_def split: option.splits)
  show "files (clean_old_hls_segments cfg inp s) = files s"
    by (auto simp: clean_old_hls_segments_def Let_def split: option.splits)
qed

lemma archive_step_fields:
  assumes "events s' = events s" "current_file_handle s' = current_file_handle s" "files s' = files s"
  shows "archive_step s s'"
  by (rule archive_step_no_file[where es = "[]"]) (use assms in simp_all)

lemma archive_step_spawn:
  assumes "spawn_pipeline cfg inp s = (r, s2)"
  shows "archive_step s s2"
proof (rule archive_step_quiet)
  show "\<exists>es. events s2 = events s @ es \<and> (\<forall>e\<in>set es. no_file_event e)"
    using assms by (auto simp: spawn_pipeline_def Let_def split: option.splits)
  show "current_file_handle s2 = current_file_handle s"
    using assms by (auto simp: spawn_pipeline_def Let_def split: option.splits)
  show "files s2 = files s"
    using assms by (auto simp: spawn_pipeline_def Let_def split: option.splits)
qed

lemma archive_step_reap:
  assumes "reap_processes inp s = (r, s')"
  shows "archive_step s s'"
proof (rule archive_step_quiet)
  show "\<exists>es. events s' = events s @ es \<and> (\<forall>e\<in>set es. no_file_event e)"
    using assms by (auto simp: reap_processes_def Let_def split: option.splits if_splits)
  show "current_file_handle s' = current_file_handle s"
    using assms by (auto simp: reap_processes_def Let_def split: option.splits if_splits)
  show "files s' = files s"
    using assms by (auto simp: reap_processes_def Let_def split: option.splits if_splits)
qed

lemma archive_step_try_block:
  assumes "try_block cfg inp s = (r, s')"
  shows "archive_step s s'"
proof -
  let ?s1 = "clean_old_hls_segments cfg inp s"
  have a1: "archive_step s ?s1" by (rule archive_step_clean)
  obtain ok s3 where sp: "spawn_pipeline cfg inp ?s1 = (ok, s3)"
    by (cases "spawn_pipeline cfg inp ?s1")
  have a3: "archive_step s s3" by (rule archive_step_trans[OF a1 archive_step_spawn[OF sp]])
  show ?thesis
  proof (cases ok)
    case False
    then have "s' = s3" using assms sp by (simp add: try_block_def)
    then show ?thesis using a3 by simp
  next
    case True
    obtain fl s4 l4 where rl: "relay_loop cfg (p_chunks inp) (s3, fresh_locals) = (fl, s4, l4)"
      by (cases "relay_loop cfg (p_chunks inp) (s3, fresh_locals)")
    have a4: "archive_step s s4"
      by (rule archive_step_trans[OF a3 relay_loop_archive[OF rl]])
    show ?thesis
    proof (cases "\<exists>msg. fl = Raise msg")
      case True
      then have "s' = s4" using assms sp \<open>ok\<close> rl by (auto simp: try_block_def)
      then show ?thesis using a4 by simp
    next
      case False
      then have "reap_processes inp s4 = (r, s')"
        using assms sp \<open>ok\<close> rl by (cases fl) (auto simp: try_block_def)
      from archive_step_trans[OF a4 archive_step_reap[OF this]] show ?thesis .
    qed
  qed
qed

lemma archive_step_pipeline_iteration:
  assumes "pipeline_iteration cfg inp s = (r, s')"
  shows "archive_step s s'"
proof -
  obtain oc s1 where tb: "try_block cfg inp s = (oc, s1)" by (cases "try_block cfg inp s")
  have a: "archive_step s s1" by (rule archive_step_try_block[OF tb])
  show ?thesis
  proof (cases oc)
    case Completed
    then show ?thesis using assms tb a by (simp add: pipeline_iteration_def)
  next
    case (Raised msg)
    then have "s' = emit [Sleep 5] (logger Error (''Error in camera streaming loop: '' @ msg) s1)"
      using assms tb by (simp add: pipeline_iteration_def)
    then show ?thesis
      using archive_step_trans[OF archive_step_trans[OF a archive_step_logger] archive_step_emit]
      by simp
  next
    case Stuck
    then show ?thesis using assms tb a by (simp add: pipeline_iteration_def)
  qed
qed

lemma archive_step_streaming_loop:
  "camera_streaming_loop cfg inps s = (r, s') \<Longrightarrow> archive_step s s'"
proof (induction inps arbitrary: s)
  case Nil
  then show ?case by (simp add: archive_step_refl)
next
  case (Cons inp inps)
  show ?case
  proof (cases "p_state_at_check inp = Disconnected")
    case True
    then show ?thesis using Cons.prems by (simp add: archive_step_refl)
  next
    case False
    obtain st s1 where pi: "pipeline_iteration cfg inp s = (st, s1)"
      by (cases "pipeline_iteration cfg inp s")
    have a: "archive_step s s1" by (rule archive_step_pipeline_iteration[OF pi])
    show ?thesis
    proof (cases st)
      case Finished
      then have "camera_streaming_loop cfg inps s1 = (r, s')" using Cons.prems False pi by simp
      from archive_step_trans[OF a Cons.IH[OF this]] show ?thesis .
    next
      case Blocked
      then have "s' = s1" using Cons.prems False pi by simp
      then show ?thesis using a by simp
    qed
  qed
qed

lemma archive_step_stop: "archive_step s (stop_camera_streaming g s)"
proof -
  let ?s1 = "logger Info ''Stopping camera streaming'' s"
  let ?s2 = "case camera_process ?s1 of None \<Rightarrow> ?s1
     | Some p \<Rightarrow> (emit (stop_process (g p) p) ?s1)\<lparr>camera_process := None\<rparr>"
  let ?s3 = "case ffmpeg_process ?s2 of None \<Rightarrow> ?s2
     | Some p \<Rightarrow> (emit (stop_process (g p) p) ?s2)\<lparr>ffmpeg_process := None\<rparr>"
  have q: "\<And>b p. \<forall>e\<in>set (stop_process b p). no_file_event e" by (simp add: stop_process_def)
  have a1: "archive_step s ?s1" by (rule archive_step_logger)
  have a2: "archive_step ?s1 ?s2"
    by (rule archive_step_quiet) (auto split: option.splits simp: q)
  have a3: "archive_step ?s2 ?s3"
    by (rule archive_step_quiet) (auto split: option.splits simp: q)
  have a4: "archive_step ?s3 (stop_camera_streaming g s)"
  proof (cases "current_file_handle ?s3")
    case None
    then show ?thesis by (simp add: stop_camera_streaming_def Let_def archive_step_refl)
  next
    case (Some h)
    then have "stop_camera_streaming g s = (close_current ?s3)\<lparr>current_file_handle := None\<rparr>"
      by (simp add: stop_camera_streaming_def Let_def)
    then show ?thesis
      using archive_step_trans[OF archive_step_close archive_step_drop_handle, of ?s3] by simp
  qed
  show ?thesis
    by (rule archive_step_trans[OF archive_step_trans[OF archive_step_trans[OF a1 a2] a3] a4])
qed


lemma toggles_events:
  "\<exists>es. events (fold set_is_recording ts s) = events s @ es \<and> (\<forall>e\<in>set es. no_file_event e)"
proof (induction ts arbitrary: s)
  case Nil show ?case by simp
next
  case (Cons t ts)
  obtain es where e: "events (fold set_is_recording ts (set_is_recording t s))
      = events (set_is_recording t s) @ es" "\<forall>e\<in>set es. no_file_event e"
    using Cons.IH by blast
  show ?case
  proof (cases "t = is_recording s")
    case True
    then have "set_is_recording t s = s" by (simp add: set_is_recording_eq)
    then show ?thesis using e by auto
  next
    case False
    then have "events (set_is_recording t s)
        = events s @ [Log Info (''Recording '' @ (if t then ''enabled'' else ''disabled''))]"
      by (simp add: set_is_recording_eq)
    then have "events (fold set_is_recording (t # ts) s)
        = events s @ (Log Info (''Recording '' @ (if t then ''enabled'' else ''disabled'')) # es)"
      using e(1) by simp
    moreover have "\<forall>e\<in>set (Log Info (''Recording '' @ (if t then ''enabled'' else ''disabled'')) # es).
        no_file_event e" using e(2) by simp
    ultimately show ?thesis by blast
  qed
qed

lemma close_current_events:
  "\<exists>es. events (close_current s) = events s @ es \<and> (\<forall>a b. FileRename a b \<notin> set es)"
  by (auto simp: close_current_def split: option.splits)

lemma relay_step_no_rename:
  assumes "c_fault inp = RenameFails" "relay_step cfg inp (s, l) = (fl, s', l')"
  shows "\<exists>new. events s' = events s @ new \<and> (\<forall>a b. FileRename a b \<notin> set new)"
proof -
  obtain es where es: "events (fold set_is_recording (c_toggles inp) s) = events s @ es"
     "\<forall>e\<in>set es. no_file_event e" using toggles_events by blast
  have nr: "\<forall>a b. FileRename a b \<notin> set es" using es(2) by (auto simp: no_file_event_def)
  show ?thesis using assms es(1) nr
    by (auto simp: relay_step_def Let_def record_chunk_def stop_segment_def close_previous_def
          start_segment_def write_chunk_def close_current_def
          split: option.splits if_splits prod.splits flow.splits)
qed


section \<open>The archive over the whole life of the recorder\<close>

lemma strftime_ex_now: "strftime ex_now = ''2024-05-17_09-03-07''"
  by (simp add: strftime_def ex_now_def zpad_def nat_digits.simps digit_char_def)

lemma new_events_append: "events s' = events s @ new \<Longrightarrow> new_events s s' = new"
  by (simp add: new_events_def)

lemma archive_step_lifecycle:
  "archive_step s (on_disconnected g (snd (camera_streaming_loop cfg inps s)))"
proof -
  obtain r s1 where l: "camera_streaming_loop cfg inps s = (r, s1)"
    by (cases "camera_streaming_loop cfg inps s")
  show ?thesis
    using archive_step_trans[OF archive_step_streaming_loop[OF l] archive_step_stop[of s1 g]] l
    by (simp add: on_disconnected_def)
qed

lemmas relay_defs =
  relay_loop_def relay_step_def record_chunk_def stop_segment_def close_previous_def
  start_segment_def write_chunk_def close_current_def file_open_def file_write_def
  file_rename_def set_is_recording_eq logger_def emit_def Let_def fresh_locals_def

lemmas pipeline_defs =
  pipeline_iteration_def try_block_def spawn_pipeline_def clean_old_hls_segments_def
  reap_processes_def glob_webcam_ts_def

lemmas ex_defs =
  ex_chunk_def ex_pipeline_def ex_started_def init_recorder_def ex_archive_def ex_old_final_def

lemma ex_paths:
  "final_path ex_cfg ex_now = (''/data/camera'', ''raw_2024-05-17_09-03-07.h264'')"
  "with_suffix (''/data/camera'', ''raw_2024-05-17_09-03-07.h264'') ''.tmp''
     = (''/data/camera'', ''raw_2024-05-17_09-03-07.tmp'')"
proof -
  show a: "final_path ex_cfg ex_now = (''/data/camera'', ''raw_2024-05-17_09-03-07.h264'')"
    by (simp add: final_path_def strftime_ex_now ex_cfg_def)
  show "with_suffix (''/data/camera'', ''raw_2024-05-17_09-03-07.h264'') ''.tmp''
     = (''/data/camera'', ''raw_2024-05-17_09-03-07.tmp'')"
    using with_suffix_final_path[of ex_cfg ex_now] unfolding a
    by (simp add: strftime_ex_now ex_cfg_def)
qed

lemma ex_toggle_run_files:
  "files (snd (camera_streaming_loop ex_cfg
       [ex_pipeline [ex_chunk [True] [1, 2] NoFault, ex_chunk [False] [3] NoFault] (Some 0)]
       (init_recorder ex_archive))) ex_old_final = Some []"
  by (simp add: relay_defs pipeline_defs ex_defs ex_paths)

lemma ex_first_chunk_continues:
  "fst (relay_steps ex_cfg [ex_chunk [True] [1, 2] NoFault] (ex_started, fresh_locals)) = Continue"
  by (simp add: relay_defs ex_defs)

text \<open>
  C2: take any state of the recorder, run the streaming loop on any observations and then the
  disconnect handler. At every instant of that run (after any number \<open>n\<close> of its events) the
  staged-write discipline has been respected: no file was opened or written under a name
  matching \<open>raw_*.h264\<close>, and every rename took a file that had been closed, and whose name
  does not match the pattern, to a name that matches it. Moreover a file with a final name
  whose content differs from the one at the start is the target of such a rename.
\<close>

theorem final_files_only_by_close_then_rename:
  "archive_ok (open_paths s, {})
     (take n (new_events s (on_disconnected g (snd (camera_streaming_loop cfg inps s)))))
   \<and> (matches_final_pattern (snd p) \<longrightarrow>
        files (on_disconnected g (snd (camera_streaming_loop cfg inps s))) p = files s p
        \<or> (\<exists>src. FileRename src p
               \<in> set (new_events s (on_disconnected g (snd (camera_streaming_loop cfg inps s))))))"
proof -
  let ?s' = "on_disconnected g (snd (camera_streaming_loop cfg inps s))"
  from archive_step_lifecycle[of s g cfg inps]
  obtain new where e: "events ?s' = events s @ new"
    and ok: "archive_ok (open_paths s, {}) new"
    and f: "\<And>q. matches_final_pattern (snd q) \<Longrightarrow> files ?s' q = files s q
               \<or> (\<exists>src c. FileRename src q \<in> set new \<and> files ?s' q = Some c \<and> c \<noteq> [])"
    unfolding archive_step_def by blast
  have n: "new_events s ?s' = new" by (rule new_events_append[OF e])
  have "archive_ok (open_paths s, {}) (take n new @ drop n new)" using ok by simp
  then have "archive_ok (open_paths s, {}) (take n new)"
    unfolding archive_ok_append by blast
  then show ?thesis using f[of p] n by auto
qed

theorem final_files_only_by_close_then_rename_witness:
  "matches_final_pattern (snd (final_path ex_cfg ex_now))
   \<and> (files (on_disconnected (\<lambda>p. True)
         (snd (camera_streaming_loop ex_cfg
            [ex_pipeline [ex_chunk [True] [1, 2] NoFault, ex_chunk [False] [3] NoFault] (Some 0)]
            (init_recorder ex_archive)))) (final_path ex_cfg ex_now)
        = files (init_recorder ex_archive) (final_path ex_cfg ex_now)
      \<or> (\<exists>src. FileRename src (final_path ex_cfg ex_now)
            \<in> set (new_events (init_recorder ex_archive)
                 (on_disconnected (\<lambda>p. True)
                   (snd (camera_streaming_loop ex_cfg
                      [ex_pipeline [ex_chunk [True] [1, 2] NoFault, ex_chunk [False] [3] NoFault] (Some 0)]
                      (init_recorder ex_archive)))))))"
  using final_files_only_by_close_then_rename[of "init_recorder ex_archive" 0 "\<lambda>p. True" ex_cfg
      "[ex_pipeline [ex_chunk [True] [1, 2] NoFault, ex_chunk [False] [3] NoFault] (Some 0)]"
      "final_path ex_cfg ex_now"]
    final_is_final[of ex_cfg ex_now]
  by blast

text \<open>
  C5: the streaming loop never creates an empty file with a final name: a final name that
  holds the empty content after the loop held it before. And in a chunk iteration whose
  rename fails, no file with a final name changes at all (the iteration starts in a state
  the relay loop reached from the start of a pipeline).
\<close>

theorem no_empty_final_segment:
  "(matches_final_pattern (snd p) \<longrightarrow>
      files (snd (camera_streaming_loop cfg inps s)) p = Some [] \<longrightarrow> files s p = Some [])
   \<and> (fst (relay_steps cfg pre (s0, fresh_locals)) = Continue \<longrightarrow>
      c_fault inp = RenameFails \<longrightarrow> matches_final_pattern (snd p) \<longrightarrow>
      files (fst (snd (relay_step cfg inp (snd (relay_steps cfg pre (s0, fresh_locals)))))) p
        = files (fst (snd (relay_steps cfg pre (s0, fresh_locals)))) p)"
proof (intro conjI impI)
  assume m: "matches_final_pattern (snd p)"
    and e: "files (snd (camera_streaming_loop cfg inps s)) p = Some []"
  obtain r s1 where l: "camera_streaming_loop cfg inps s = (r, s1)"
    by (cases "camera_streaming_loop cfg inps s")
  from archive_step_streaming_loop[OF l] m
  have "files s1 p = files s p \<or> (\<exists>c. files s1 p = Some c \<and> c \<noteq> [])"
    unfolding archive_step_def by blast
  then show "files s p = Some []" using e l by auto
next
  assume c: "fst (relay_steps cfg pre (s0, fresh_locals)) = Continue"
    and f: "c_fault inp = RenameFails" and m: "matches_final_pattern (snd p)"
  obtain s l where st: "relay_steps cfg pre (s0, fresh_locals) = (Continue, s, l)"
    using c by (cases "relay_steps cfg pre (s0, fresh_locals)") auto
  from relay_steps_inv[OF segment_inv_fresh st] have inv: "segment_inv cfg (s, l)" by simp
  obtain fl s' l' where rs: "relay_step cfg inp (s, l) = (fl, s', l')"
    by (cases "relay_step cfg inp (s, l)")
  from relay_step_no_rename[OF f rs] obtain new where
    n: "events s' = events s @ new" "\<forall>a b. FileRename a b \<notin> set new" by blast
  from relay_step_inv[OF inv rs] have "archive_step s s'" by simp
  then obtain new' where n': "events s' = events s @ new'"
    and k: "matches_final_pattern (snd p) \<longrightarrow> files s' p = files s p
         \<or> (\<exists>src c. FileRename src p \<in> set new' \<and> files s' p = Some c \<and> c \<noteq> [])"
    unfolding archive_step_def by blast
  have "new' = new" using n(1) n' by simp
  then have "files s' p = files s p" using k m n(2) by blast
  then show "files (fst (snd (relay_step cfg inp (snd (relay_steps cfg pre (s0, fresh_locals)))))) p
        = files (fst (snd (relay_steps cfg pre (s0, fresh_locals)))) p"
    using st rs by simp
qed


theorem no_empty_final_segment_witness:
  "matches_final_pattern (snd ex_old_final)
   \<and> files (snd (camera_streaming_loop ex_cfg
       [ex_pipeline [ex_chunk [True] [1, 2] NoFault, ex_chunk [False] [3] NoFault] (Some 0)]
       (init_recorder ex_archive))) ex_old_final = Some []
   \<and> files (init_recorder ex_archive) ex_old_final = Some []
   \<and> fst (relay_steps ex_cfg [ex_chunk [True] [1, 2] NoFault] (ex_started, fresh_locals)) = Continue
   \<and> c_fault (ex_chunk [False] [3] RenameFails) = RenameFails
   \<and> matches_final_pattern (snd (final_path ex_cfg ex_now))
   \<and> files (fst (snd (relay_step ex_cfg (ex_chunk [False] [3] RenameFails)
        (snd (relay_steps ex_cfg [ex_chunk [True] [1, 2] NoFault] (ex_started, fresh_locals))))))
        (final_path ex_cfg ex_now)
      = files (fst (snd (relay_steps ex_cfg [ex_chunk [True] [1, 2] NoFault]
           (ex_started, fresh_locals)))) (final_path ex_cfg ex_now)"
proof -
  have h1: "matches_final_pattern (snd ex_old_final)"
    by (simp add: ex_old_final_def matches_final_pattern_def)
  have h2: "c_fault (ex_chunk [False] [3] RenameFails) = RenameFails"
    by (simp add: ex_chunk_def)
  note t1 = no_empty_final_segment[of ex_old_final ex_cfg
      "[ex_pipeline [ex_chunk [True] [1, 2] NoFault, ex_chunk [False] [3] NoFault] (Some 0)]"
      "init_recorder ex_archive"]
  note t2 = no_empty_final_segment[of "final_path ex_cfg ex_now" ex_cfg _ _
      "[ex_chunk [True] [1, 2] NoFault]" ex_started "ex_chunk [False] [3] RenameFails"]
  show ?thesis
    using t1 t2 h1 h2 ex_toggle_run_files ex_first_chunk_continues final_is_final[of ex_cfg ex_now]
    by blast
qed


section \<open>The recovery loop\<close>

lemma loop_exits_only_when_disconnected:
  "fst (camera_streaming_loop cfg inps s) = Exited \<Longrightarrow>
   \<exists>inp\<in>set inps. p_state_at_check inp = Disconnected"
proof (induction inps arbitrary: s)
  case Nil
  then show ?case by simp
next
  case (Cons inp inps)
  show ?case
  proof (cases "p_state_at_check inp = Disconnected")
    case True then show ?thesis by simp
  next
    case False
    obtain st s1 where pi: "pipeline_iteration cfg inp s = (st, s1)"
      by (cases "pipeline_iteration cfg inp s")
    show ?thesis
    proof (cases st)
      case Finished
      then have "fst (camera_streaming_loop cfg inps s1) = Exited"
        using Cons.prems False pi by simp
      from Cons.IH[OF this] show ?thesis by simp
    next
      case Blocked
      then show ?thesis using Cons.prems False pi by simp
    qed
  qed
qed

lemma try_block_stuck:
  assumes "try_block cfg inp s = (Stuck, s')"
  shows "p_camera_exit inp = None \<or> p_ffmpeg_exit inp = None"
proof -
  have r: "\<And>s4 s5. reap_processes inp s4 = (Stuck, s5) \<Longrightarrow>
      p_camera_exit inp = None \<or> p_ffmpeg_exit inp = None"
    by (auto simp: reap_processes_def Let_def split: option.splits if_splits)
  show ?thesis using assms r
    by (auto simp: try_block_def split: bool.splits prod.splits flow.splits)
qed

lemma loop_hangs_only_in_wait:
  "fst (camera_streaming_loop cfg inps s) = Hung \<Longrightarrow>
   \<exists>inp\<in>set inps. p_camera_exit inp = None \<or> p_ffmpeg_exit inp = None"
proof (induction inps arbitrary: s)
  case Nil
  then show ?case by simp
next
  case (Cons inp inps)
  show ?case
  proof (cases "p_state_at_check inp = Disconnected")
    case True then show ?thesis using Cons.prems by simp
  next
    case False
    obtain st s1 where pi: "pipeline_iteration cfg inp s = (st, s1)"
      by (cases "pipeline_iteration cfg inp s")
    show ?thesis
    proof (cases st)
      case Finished
      then have "fst (camera_streaming_loop cfg inps s1) = Hung"
        using Cons.prems False pi by simp
      from Cons.IH[OF this] show ?thesis by auto
    next
      case Blocked
      then obtain s2 where "try_block cfg inp s = (Stuck, s2)"
        using pi by (auto simp: pipeline_iteration_def split: prod.splits outcome.splits)
      from try_block_stuck[OF this] show ?thesis by simp
    qed
  qed
qed

lemma reap_cooldown:
  assumes "reap_processes inp s = (Completed, s1)" "p_camera_exit inp = Some rc" "rc \<noteq> 0"
    "p_state_at_exit inp \<noteq> Disconnected"
  shows "\<exists>evs. events s1 = evs @ [Log Error ''Camera streaming failed, restarting in 5 seconds'', Sleep 5]"
  using assms
  by (auto simp: reap_processes_def Let_def split: option.splits if_splits)

lemma try_block_cooldown:
  assumes "try_block cfg inp s = (Completed, s1)" "p_camera_exit inp = Some rc" "rc \<noteq> 0"
    "p_state_at_exit inp \<noteq> Disconnected"
  shows "\<exists>evs. events s1 = evs @ [Log Error ''Camera streaming failed, restarting in 5 seconds'', Sleep 5]"
proof -
  from assms(1) obtain s4 where "reap_processes inp s4 = (Completed, s1)"
    by (auto simp: try_block_def split: bool.splits prod.splits flow.splits)
  from reap_cooldown[OF this assms(2,3,4)] show ?thesis .
qed

lemma relay_step_broken_pipe:
  assumes "camera_process s \<noteq> None" "ffmpeg_process s \<noteq> None" "c_data c \<noteq> []" "\<not> c_hls_ok c"
  shows "relay_step cfg c (s, l)
     = (Break, logger Warning ''HLS stream disconnected'' (fold set_is_recording (c_toggles c) s), l)"
  using assms by (auto simp: relay_step_def Let_def toggles_fields split: option.splits)

lemma loop_runs_on:
  assumes "\<forall>i\<in>set inps. p_state_at_check i \<noteq> Disconnected
             \<and> p_camera_exit i \<noteq> None \<and> p_ffmpeg_exit i \<noteq> None"
  shows "fst (camera_streaming_loop cfg inps s) = Running"
proof (cases "fst (camera_streaming_loop cfg inps s)")
  case Running then show ?thesis .
next
  case Exited
  from loop_exits_only_when_disconnected[OF this] assms show ?thesis by blast
next
  case Hung
  from loop_hangs_only_in_wait[OF this] assms show ?thesis by blast
qed


lemmas ex_more_defs = ex_fresh_def ex_write_fails_def ex_camera_dies_def

lemmas ex_loop_defs = ex_disconnect_def ex_no_camera_def ex_unlink_fails_def
  ex_broken_chunk_def ex_pipe_closed_def

lemma ex_exits: "fst (camera_streaming_loop ex_cfg [ex_disconnect] ex_fresh) = Exited"
  by (simp add: ex_defs ex_more_defs ex_loop_defs)

lemma ex_hangs: "fst (camera_streaming_loop ex_cfg [ex_pipeline [] None] ex_fresh) = Hung"
  by (simp add: relay_defs pipeline_defs ex_defs ex_more_defs ex_loop_defs)

lemma ex_write_fails_spawned:
  "fst (spawn_pipeline ex_cfg ex_write_fails (clean_old_hls_segments ex_cfg ex_write_fails ex_fresh))"
  by (simp add: pipeline_defs ex_defs ex_more_defs ex_loop_defs Let_def)

lemma ex_write_fails_raises:
  "fst (relay_loop ex_cfg (p_chunks ex_write_fails)
      (snd (spawn_pipeline ex_cfg ex_write_fails
              (clean_old_hls_segments ex_cfg ex_write_fails ex_fresh)), fresh_locals))
     = Raise ''No space left on device''"
  by (simp add: relay_defs pipeline_defs ex_defs ex_more_defs ex_loop_defs)

lemma ex_camera_dies_completes:
  "fst (try_block ex_cfg ex_camera_dies ex_fresh) = Completed"
  by (simp add: relay_defs pipeline_defs ex_defs ex_more_defs ex_loop_defs)

lemma ex_camera_dies_fields:
  "p_camera_exit ex_camera_dies = Some 1"
  "p_state_at_exit ex_camera_dies \<noteq> Disconnected"
  "p_state_at_check ex_camera_dies \<noteq> Disconnected"
  "p_camera_spawn ex_no_camera = None"
  "p_state_at_check ex_disconnect = Disconnected"
  "p_camera_exit (ex_pipeline [] None) = None"
  by (simp_all add: ex_defs ex_more_defs ex_loop_defs)

lemma ex_unlink_fails_hyps:
  "p_unlink_fails_at ex_unlink_fails = Some 0"
  "0 < length (filter glob_webcam_ts (p_hls_listing ex_unlink_fails)
               @ filter (\<lambda>n. n = ''webcam.m3u8'') (p_hls_listing ex_unlink_fails))"
  by (simp_all add: ex_defs ex_more_defs ex_loop_defs glob_webcam_ts_def)

lemma ex_broken_chunk_hyps:
  "camera_process ex_started \<noteq> None" "ffmpeg_process ex_started \<noteq> None"
  "c_data ex_broken_chunk \<noteq> []" "\<not> c_hls_ok ex_broken_chunk"
  by (simp_all add: ex_defs ex_more_defs ex_loop_defs)

lemma ex_alive_fields:
  "p_ffmpeg_exit ex_camera_dies = Some 0" "p_state_at_check ex_pipe_closed = Ready"
  "p_camera_exit ex_pipe_closed = Some 0" "p_ffmpeg_exit ex_pipe_closed = Some 0"
  by (simp_all add: ex_defs ex_more_defs ex_loop_defs)

lemma ex_camera_dies_alive:
  "\<forall>i\<in>set [ex_camera_dies, ex_pipe_closed]. p_state_at_check i \<noteq> Disconnected
      \<and> p_camera_exit i \<noteq> None \<and> p_ffmpeg_exit i \<noteq> None"
  by (simp add: ex_defs ex_more_defs ex_loop_defs)




section \<open>Where the code leaves the specification\<close>

text \<open>
  C7: a broken pipe to the transcode process is logged as a warning and ends the relay loop
  without an exception, but the code then calls \<open>wait()\<close> on the capture process without
  having terminated it. With a capture process that keeps running (it is started with
  \<open>-t 0\<close>) the thread stays in that call: the outer loop is not reached again and no
  process is started, although the job is not disconnected and a further iteration is due.
\<close>

theorem broken_pipe_blocks_on_running_capture:
  "camera_streaming_loop ex_cfg [ex_hls_breaks, ex_pipeline [] (Some 0)] ex_fresh
     = (Hung,
        ex_fresh\<lparr>camera_process := Some (Proc Capture 100),
                 ffmpeg_process := Some (Proc Transcode 101),
                 events :=
                   [Unlink (hls_dir ex_cfg, ''webcam3.ts''),
                    Unlink (hls_dir ex_cfg, ''webcam.m3u8''),
                    Spawn (Proc Capture 100) (rpicam_cmd ex_cfg),
                    Spawn (Proc Transcode 101) (ffmpeg_cmd ex_cfg),
                    Log Warning ''HLS stream disconnected'',
                    WaitFor (Proc Capture 100) None]\<rparr>)"
  by (simp add: relay_defs pipeline_defs ex_defs ex_more_defs ex_hls_breaks_def)

lemma ex_recording_eq:
  "ex_recording =
     ex_started\<lparr>is_recording := True,
                 current_file_handle := Some \<lparr>f_path = ex_staging, f_closed = False\<rparr>,
                 files := [ex_staging \<mapsto> [1, 2]],
                 events := [Log Info ''Recording enabled'',
                            StdinWrite (Proc Transcode 101) [1, 2],
                            FileOpen ex_staging, FileWrite ex_staging [1, 2]]\<rparr>"
  by (simp add: ex_recording_def relay_defs ex_defs ex_paths ex_staging_def)

text \<open>
  C4: the job disconnects while a segment is open (one chunk recorded). The shutdown path stops
  both processes and closes the file handle, and does nothing else to the archive: the
  staging file keeps its \<open>.tmp\<close> name with the recorded chunk in it, and no file exists under
  the final name.
\<close>

theorem shutdown_leaves_open_segment_staged:
  "current_file_handle ex_recording = Some \<lparr>f_path = ex_staging, f_closed = False\<rparr>
   \<and> files (on_disconnected (\<lambda>p. True) ex_recording) ex_staging = Some [1, 2]
   \<and> files (on_disconnected (\<lambda>p. True) ex_recording) ex_final = None
   \<and> \<not> matches_final_pattern (snd ex_staging)
   \<and> new_events ex_recording (on_disconnected (\<lambda>p. True) ex_recording)
       = [Log Info ''Stopping camera streaming'',
          Terminate (Proc Capture 100), WaitFor (Proc Capture 100) (Some 10),
          Terminate (Proc Transcode 101), WaitFor (Proc Transcode 101) (Some 10),
          FileClose ex_staging]"
  by (simp add: ex_recording_eq on_disconnected_def stop_camera_streaming_def stop_process_def
        close_current_def logger_def emit_def Let_def new_events_def ex_started_def
        init_recorder_def ex_staging_def ex_final_def matches_final_pattern_def)


section \<open>A failing archive write\<close>

lemma delivered_append:
  "events s' = events s @ es \<Longrightarrow>
   delivered s' = delivered s @ concat (map (\<lambda>e. case e of StdinWrite _ d \<Rightarrow> [d] | _ \<Rightarrow> []) es)"
  by (simp add: delivered_def)

lemma delivered_toggles [simp]: "delivered (fold set_is_recording ts s) = delivered s"
  by (induction ts arbitrary: s) (simp_all add: set_is_recording_eq delivered_def)

lemma relay_steps_append:
  "relay_steps cfg (a @ b) sl =
     (case relay_steps cfg a sl of (Continue, sl') \<Rightarrow> relay_steps cfg b sl' | r \<Rightarrow> r)"
proof (induction a arbitrary: sl)
  case Nil show ?case by simp
next
  case (Cons x a)
  show ?case
  proof (cases "relay_step cfg x sl")
    case (fields fl s' l')
    then show ?thesis using Cons.IH by (cases fl) auto
  qed
qed

lemma relay_step_procs:
  assumes "relay_step cfg c (s, l) = (fl, s', l')"
  shows "camera_process s' = camera_process s \<and> ffmpeg_process s' = ffmpeg_process s"
  using assms
  by (auto simp: relay_step_def Let_def record_chunk_def stop_segment_def close_previous_def
        start_segment_def write_chunk_def close_current_def
        split: option.splits if_splits prod.splits flow.splits fault.splits)

lemma relay_steps_procs:
  "relay_steps cfg cs (s, l) = (fl, s', l') \<Longrightarrow>
   camera_process s' = camera_process s \<and> ffmpeg_process s' = ffmpeg_process s"
proof (induction cs arbitrary: s l)
  case Nil then show ?case by simp
next
  case (Cons c cs)
  obtain f1 s1 l1 where st: "relay_step cfg c (s, l) = (f1, s1, l1)"
    by (cases "relay_step cfg c (s, l)")
  show ?case
  proof (cases "f1 = Continue")
    case True
    then have "relay_steps cfg cs (s1, l1) = (fl, s', l')" using Cons.prems st by simp
    from Cons.IH[OF this] relay_step_procs[OF st] show ?thesis by simp
  next
    case False
    then have "s' = s1" using Cons.prems st by (cases f1) auto
    then show ?thesis using relay_step_procs[OF st] by simp
  qed
qed

lemma record_chunk_write_fails:
  assumes inv: "segment_inv cfg (s, l)" and f: "c_fault c = WriteFails k"
  shows "\<exists>s' l'. record_chunk cfg c l s = (Raise (c_errmsg c), s', l') \<and> delivered s' = delivered s"
proof (cases "current_file_path l")
  case None
  then have st: "current_segment_start l = None" using inv by (simp add: segment_inv_def)
  show ?thesis using None st f
    by (auto simp: record_chunk_def close_previous_def start_segment_def write_chunk_def
          close_current_def Let_def delivered_def split: option.splits)
next
  case (Some p)
  from inv Some obtain st c0 where
      st: "current_segment_start l = Some st"
      and h: "current_file_handle s = Some \<lparr>f_path = with_suffix p ''.tmp'', f_closed = False\<rparr>"
      and c0: "files s (with_suffix p ''.tmp'') = Some c0"
    by (auto simp: segment_inv_def)
  show ?thesis using Some st h c0 f
    by (auto simp: record_chunk_def close_previous_def start_segment_def write_chunk_def
          close_current_def Let_def delivered_def)
qed

lemma write_failure_step:
  assumes inv: "segment_inv cfg (s, l)"
    and cam: "camera_process s = Some cam" and ff: "ffmpeg_process s = Some ff"
    and rec: "is_recording (fold set_is_recording (c_toggles c) s)"
    and data: "c_data c \<noteq> []" and ok: "c_hls_ok c" and f: "c_fault c = WriteFails k"
  shows "\<exists>s' l'. relay_step cfg c (s, l) = (Raise (c_errmsg c), s', l')
           \<and> delivered s' = delivered s @ [c_data c]"
proof -
  let ?s0 = "fold set_is_recording (c_toggles c) s"
  let ?s1 = "emit [StdinWrite ff (c_data c)] ?s0"
  have i1: "segment_inv cfg (?s1, l)" by (rule segment_inv_cong[OF inv]) simp_all
  have d1: "delivered ?s1 = delivered s @ [c_data c]"
    using delivered_append[of ?s1 ?s0 "[StdinWrite ff (c_data c)]"] by simp
  have rs: "relay_step cfg c (s, l) = record_chunk cfg c l ?s1"
    using cam ff rec data ok by (simp add: relay_step_def Let_def)
  from record_chunk_write_fails[OF i1 f] obtain s' l' where
    "record_chunk cfg c l ?s1 = (Raise (c_errmsg c), s', l')" "delivered s' = delivered ?s1"
    by blast
  then show ?thesis using rs d1 by simp
qed


lemma archive_step_events: "archive_step s s' \<Longrightarrow> \<exists>es. events s' = events s @ es"
  unfolding archive_step_def by blast

lemma spawn_pipeline_True:
  assumes "spawn_pipeline cfg inp s = (True, s3)"
  shows "\<exists>cp fp. p_camera_spawn inp = Some cp \<and> p_ffmpeg_spawn inp = Some fp
     \<and> camera_process s3 = Some (Proc Capture cp) \<and> ffmpeg_process s3 = Some (Proc Transcode fp)
     \<and> events s3 = events s @ [Spawn (Proc Capture cp) (rpicam_cmd cfg),
                                Spawn (Proc Transcode fp) (ffmpeg_cmd cfg)]"
  using assms by (auto simp: spawn_pipeline_def Let_def split: option.splits)

lemma spawn_pipeline_Some:
  assumes "p_camera_spawn inp = Some cp" "p_ffmpeg_spawn inp = Some fp"
  shows "fst (spawn_pipeline cfg inp s)"
  using assms by (simp add: spawn_pipeline_def Let_def)

lemma try_block_after_spawn:
  assumes sp: "spawn_pipeline cfg inp (clean_old_hls_segments cfg inp s) = (True, s3)"
  shows "\<exists>es. events (snd (try_block cfg inp s)) = events s3 @ es"
proof -
  obtain fl s4 l4 where rl: "relay_loop cfg (p_chunks inp) (s3, fresh_locals) = (fl, s4, l4)"
    by (cases "relay_loop cfg (p_chunks inp) (s3, fresh_locals)")
  from archive_step_events[OF relay_loop_archive[OF rl]]
  obtain e4 where e4: "events s4 = events s3 @ e4" by blast
  show ?thesis
  proof (cases "\<exists>msg. fl = Raise msg")
    case True
    then have "snd (try_block cfg inp s) = s4" using sp rl by (auto simp: try_block_def)
    then show ?thesis using e4 by simp
  next
    case False
    obtain r s5 where rp: "reap_processes inp s4 = (r, s5)" by (cases "reap_processes inp s4")
    from False have "try_block cfg inp s = (r, s5)"
      using sp rl rp by (cases fl) (auto simp: try_block_def)
    moreover from archive_step_events[OF archive_step_reap[OF rp]]
    obtain e5 where "events s5 = events s4 @ e5" by blast
    ultimately show ?thesis using e4 by simp
  qed
qed

lemma pipeline_iteration_after_try:
  "\<exists>es. events (snd (pipeline_iteration cfg inp s)) = events (snd (try_block cfg inp s)) @ es"
  by (cases "try_block cfg inp s"; cases "fst (try_block cfg inp s)")
     (auto simp: pipeline_iteration_def)

lemma pipeline_iteration_spawns:
  assumes "p_camera_spawn inp = Some cp" "p_ffmpeg_spawn inp = Some fp"
  shows "Spawn (Proc Capture cp) (rpicam_cmd cfg)
           \<in> set (new_events s (snd (pipeline_iteration cfg inp s)))
       \<and> Spawn (Proc Transcode fp) (ffmpeg_cmd cfg)
           \<in> set (new_events s (snd (pipeline_iteration cfg inp s)))"
proof -
  let ?s1 = "clean_old_hls_segments cfg inp s"
  obtain s3 where sp: "spawn_pipeline cfg inp ?s1 = (True, s3)"
    using spawn_pipeline_Some[OF assms, of cfg ?s1] by (cases "spawn_pipeline cfg inp ?s1") auto
  from archive_step_events[OF archive_step_clean] obtain e1 where
    e1: "events ?s1 = events s @ e1" by blast
  from spawn_pipeline_True[OF sp] assms have
    e3: "events s3 = events ?s1 @ [Spawn (Proc Capture cp) (rpicam_cmd cfg),
                                Spawn (Proc Transcode fp) (ffmpeg_cmd cfg)]" by auto
  from try_block_after_spawn[OF sp] obtain e4 where
    e4: "events (snd (try_block cfg inp s)) = events s3 @ e4" by blast
  from pipeline_iteration_after_try obtain e5 where
    e5: "events (snd (pipeline_iteration cfg inp s)) = events (snd (try_block cfg inp s)) @ e5"
    by blast
  have "new_events s (snd (pipeline_iteration cfg inp s))
      = e1 @ [Spawn (Proc Capture cp) (rpicam_cmd cfg),
              Spawn (Proc Transcode fp) (ffmpeg_cmd cfg)] @ e4 @ e5"
    using e1 e3 e4 e5 by (simp add: new_events_def)
  then show ?thesis by simp
qed

lemma ex_write_fails_hyps:
  "p_chunks ex_write_fails = [] @ ex_chunk [True] [1, 2] (WriteFails 1) # [ex_chunk [] [3] NoFault]"
  "fst (relay_steps ex_cfg [] (pipeline_start ex_cfg ex_write_fails ex_fresh, fresh_locals)) = Continue"
  "is_recording (fold set_is_recording (c_toggles (ex_chunk [True] [1, 2] (WriteFails 1)))
     (relay_state ex_cfg [] (pipeline_start ex_cfg ex_write_fails ex_fresh)))"
  "c_data (ex_chunk [True] [1, 2] (WriteFails 1)) \<noteq> []"
  "c_hls_ok (ex_chunk [True] [1, 2] (WriteFails 1))"
  "c_fault (ex_chunk [True] [1, 2] (WriteFails 1)) = WriteFails 1"
  "p_state_at_check ex_write_fails \<noteq> Disconnected"
  "p_camera_spawn ex_camera_dies = Some 100"
  "p_ffmpeg_spawn ex_camera_dies = Some 101"
  by (simp_all add: relay_defs pipeline_defs ex_defs ex_more_defs pipeline_start_def
        relay_state_def)

text \<open>
  C1, as the code has it: in an iteration of the relay loop that observes \<open>is_recording\<close>
  set and delivers its chunk to the transcode process, an archive write that raises an I/O
  error ends the relay loop of that pipeline: the exception reaches the handler of the outer
  loop, which logs it and sleeps 5 seconds; the failing chunk is the last one delivered to the
  transcode process of that pipeline; and the next iteration of the outer loop, the job not
  being disconnected, spawns a new capture and a new transcode process.
\<close>

theorem archive_write_failure_restarts_pipeline:
  assumes spawned: "fst (spawn_pipeline cfg inp (clean_old_hls_segments cfg inp s))"
    and chunks: "p_chunks inp = pre @ c # post"
    and running: "fst (relay_steps cfg pre (pipeline_start cfg inp s, fresh_locals)) = Continue"
    and recording: "is_recording (fold set_is_recording (c_toggles c)
                       (relay_state cfg pre (pipeline_start cfg inp s)))"
    and data: "c_data c \<noteq> []" and hls: "c_hls_ok c" and fault: "c_fault c = WriteFails k"
    and alive: "p_state_at_check inp \<noteq> Disconnected" "p_state_at_check inp2 \<noteq> Disconnected"
    and spawn2: "p_camera_spawn inp2 = Some cp" "p_ffmpeg_spawn inp2 = Some fp"
  shows "fst (pipeline_iteration cfg inp s) = Finished
     \<and> delivered (snd (pipeline_iteration cfg inp s))
         = delivered (relay_state cfg pre (pipeline_start cfg inp s)) @ [c_data c]
     \<and> (\<exists>evs. events (snd (pipeline_iteration cfg inp s))
           = evs @ [Log Error (''Error in camera streaming loop: '' @ c_errmsg c), Sleep 5])
     \<and> Spawn (Proc Capture cp) (rpicam_cmd cfg)
         \<in> set (new_events (snd (pipeline_iteration cfg inp s))
                  (snd (camera_streaming_loop cfg [inp, inp2] s)))
     \<and> Spawn (Proc Transcode fp) (ffmpeg_cmd cfg)
         \<in> set (new_events (snd (pipeline_iteration cfg inp s))
                  (snd (camera_streaming_loop cfg [inp, inp2] s)))"
proof -
  let ?s3 = "pipeline_start cfg inp s"
  have sp: "spawn_pipeline cfg inp (clean_old_hls_segments cfg inp s) = (True, ?s3)"
    using spawned by (cases "spawn_pipeline cfg inp (clean_old_hls_segments cfg inp s)")
      (simp add: pipeline_start_def)
  from spawn_pipeline_True[OF sp] obtain cam ff where
    p3: "camera_process ?s3 = Some cam" "ffmpeg_process ?s3 = Some ff" by blast
  obtain s4 l4 where st: "relay_steps cfg pre (?s3, fresh_locals) = (Continue, s4, l4)"
    using running by (cases "relay_steps cfg pre (?s3, fresh_locals)") auto
  have s4: "relay_state cfg pre ?s3 = s4" using st by (simp add: relay_state_def)
  have inv: "segment_inv cfg (s4, l4)" using relay_steps_inv[OF segment_inv_fresh st] by simp
  have p4: "camera_process s4 = Some cam" "ffmpeg_process s4 = Some ff"
    using relay_steps_procs[OF st] p3 by simp_all
  from write_failure_step[OF inv p4 recording[unfolded s4] data hls fault]
  obtain s5 l5 where step: "relay_step cfg c (s4, l4) = (Raise (c_errmsg c), s5, l5)"
    and d5: "delivered s5 = delivered s4 @ [c_data c]" by blast
  have "relay_steps cfg (pre @ c # post) (?s3, fresh_locals) = (Raise (c_errmsg c), s5, l5)"
    unfolding relay_steps_append using st step by simp
  then have "relay_loop cfg (p_chunks inp) (?s3, fresh_locals) = (Raise (c_errmsg c), s5, l5)"
    using chunks by (simp add: relay_loop_def)
  then have tb: "try_block cfg inp s = (Raised (c_errmsg c), s5)"
    using sp by (simp add: try_block_def)
  let ?s6 = "emit [Sleep 5] (logger Error (''Error in camera streaming loop: '' @ c_errmsg c) s5)"
  have pi: "pipeline_iteration cfg inp s = (Finished, ?s6)"
    using tb by (simp add: pipeline_iteration_def)
  have d6: "delivered ?s6 = delivered s5" by (simp add: delivered_def)
  have e6: "events ?s6
      = events s5 @ [Log Error (''Error in camera streaming loop: '' @ c_errmsg c), Sleep 5]"
    by simp
  have "snd (camera_streaming_loop cfg [inp, inp2] s) = snd (pipeline_iteration cfg inp2 ?s6)"
    using alive pi by (auto split: prod.splits status.splits)
  then show ?thesis
    using pi d6 d5 s4 e6 pipeline_iteration_spawns[OF spawn2, of cfg ?s6] by auto
qed


theorem archive_write_failure_restarts_pipeline_witness:
  "fst (spawn_pipeline ex_cfg ex_write_fails (clean_old_hls_segments ex_cfg ex_write_fails ex_fresh))
   \<and> p_chunks ex_write_fails
       = [] @ ex_chunk [True] [1, 2] (WriteFails 1) # [ex_chunk [] [3] NoFault]
   \<and> fst (relay_steps ex_cfg [] (pipeline_start ex_cfg ex_write_fails ex_fresh, fresh_locals))
       = Continue
   \<and> is_recording (fold set_is_recording (c_toggles (ex_chunk [True] [1, 2] (WriteFails 1)))
        (relay_state ex_cfg [] (pipeline_start ex_cfg ex_write_fails ex_fresh)))
   \<and> c_data (ex_chunk [True] [1, 2] (WriteFails 1)) \<noteq> []
   \<and> c_hls_ok (ex_chunk [True] [1, 2] (WriteFails 1))
   \<and> c_fault (ex_chunk [True] [1, 2] (WriteFails 1)) = WriteFails 1
   \<and> p_state_at_check ex_write_fails \<noteq> Disconnected
   \<and> p_state_at_check ex_camera_dies \<noteq> Disconnected
   \<and> p_camera_spawn ex_camera_dies = Some 100
   \<and> p_ffmpeg_spawn ex_camera_dies = Some 101
   \<and> fst (pipeline_iteration ex_cfg ex_write_fails ex_fresh) = Finished
   \<and> delivered (snd (pipeline_iteration ex_cfg ex_write_fails ex_fresh))
       = delivered (relay_state ex_cfg [] (pipeline_start ex_cfg ex_write_fails ex_fresh))
         @ [c_data (ex_chunk [True] [1, 2] (WriteFails 1))]
   \<and> (\<exists>evs. events (snd (pipeline_iteration ex_cfg ex_write_fails ex_fresh))
          = evs @ [Log Error (''Error in camera streaming loop: ''
                                @ c_errmsg (ex_chunk [True] [1, 2] (WriteFails 1))), Sleep 5])
   \<and> Spawn (Proc Capture 100) (rpicam_cmd ex_cfg)
       \<in> set (new_events (snd (pipeline_iteration ex_cfg ex_write_fails ex_fresh))
                (snd (camera_streaming_loop ex_cfg [ex_write_fails, ex_camera_dies] ex_fresh)))
   \<and> Spawn (Proc Transcode 101) (ffmpeg_cmd ex_cfg)
       \<in> set (new_events (snd (pipeline_iteration ex_cfg ex_write_fails ex_fresh))
                (snd (camera_streaming_loop ex_cfg [ex_write_fails, ex_camera_dies] ex_fresh)))"
  using archive_write_failure_restarts_pipeline[OF ex_write_fails_spawned ex_write_fails_hyps(1-7)
      ex_camera_dies_fields(3) ex_write_fails_hyps(8,9)]
    ex_write_fails_spawned ex_write_fails_hyps ex_camera_dies_fields(3)
  by blast

text \<open>
  C1 as stated fails: the archive write of the first chunk raises, the second chunk
  \<open>[3]\<close> is never delivered to the transcode process, and both processes are spawned again.
\<close>

theorem archive_write_failure_counterexample:
  "events (snd (camera_streaming_loop ex_cfg [ex_write_fails, ex_camera_dies] ex_fresh))
     = [Unlink (hls_dir ex_cfg, ''webcam3.ts''), Unlink (hls_dir ex_cfg, ''webcam.m3u8''),
        Spawn (Proc Capture 100) (rpicam_cmd ex_cfg),
        Spawn (Proc Transcode 101) (ffmpeg_cmd ex_cfg),
        Log Info ''Recording enabled'',
        StdinWrite (Proc Transcode 101) [1, 2],
        FileOpen ex_staging, FileWrite ex_staging [1],
        Log Error ''Error in camera streaming loop: No space left on device'', Sleep 5,
        Unlink (hls_dir ex_cfg, ''webcam3.ts''), Unlink (hls_dir ex_cfg, ''webcam.m3u8''),
        Spawn (Proc Capture 100) (rpicam_cmd ex_cfg),
        Spawn (Proc Transcode 101) (ffmpeg_cmd ex_cfg),
        WaitFor (Proc Capture 100) None, StdinClose (Proc Transcode 101),
        WaitFor (Proc Transcode 101) None,
        Log Error ''Camera streaming failed, restarting in 5 seconds'', Sleep 5]
   \<and> delivered (snd (camera_streaming_loop ex_cfg [ex_write_fails, ex_camera_dies] ex_fresh))
       = [[1, 2]]"
  by (simp add: relay_defs pipeline_defs ex_defs ex_more_defs ex_paths ex_staging_def
        delivered_def)


section \<open>Chunks and final files\<close>

lemma completed_append [simp]: "completed (a @ b) = completed a @ completed b"
  by (simp add: completed_def)

lemma completed_simps [simp]:
  "completed [] = []"
  "completed (FileRename src dst # es) = dst # completed es"
  "completed (FileOpen p # es) = completed es"
  "completed (FileWrite p d # es) = completed es"
  "completed (FileClose p # es) = completed es"
  "completed (Log lv m # es) = completed es"
  "completed (StdinWrite pr d # es) = completed es"
  by (simp_all add: completed_def)

lemma completed_no_file: "\<forall>e\<in>set es. no_file_event e \<Longrightarrow> completed es = []"
  by (induction es) (auto simp: completed_def no_file_event_def split: event.splits)

lemma content_cong: "\<forall>q\<in>set qs. fs' q = fs q \<Longrightarrow>
   map (content fs') qs = map (content fs) qs"
  by (induction qs) (simp_all add: content_def)

lemma concat_groups: "concat (map concat gs) = concat (concat gs)"
  by (induction gs) simp_all

lemma concat_nonempty: "[] \<notin> set g \<Longrightarrow> concat g = [] \<Longrightarrow> g = []"
  by (cases g) auto

lemma group_step:
  assumes inv: "group_inv s0 sl gs g" and eff: "seg_effect sl sl' d"
    and dist: "distinct (completed (new_events s0 (fst sl')))"
  shows "\<exists>gs' g'. group_inv s0 sl' gs' g'
           \<and> concat gs' @ g' = concat gs @ g @ (if d = [] then [] else [d])"
proof -
  from inv obtain new where e: "events (fst sl) = events s0 @ new"
    and fin: "\<forall>p\<in>set (completed new). matches_final_pattern (snd p) \<and> files (fst sl) p \<noteq> None"
    and M: "map (content (files (fst sl))) (completed new) = map concat gs"
    and P: "pending sl = concat g" and ne: "[] \<notin> set gs" "[] \<notin> set g"
    by (auto simp: group_inv_def new_events_def)
  from eff obtain es where e': "events (fst sl') = events (fst sl) @ es"
    and cases: "(completed es = []
             \<and> (\<forall>q. matches_final_pattern (snd q) \<longrightarrow> files (fst sl') q = files (fst sl) q)
             \<and> pending sl' = pending sl @ d)
            \<or> (\<exists>p. matches_final_pattern (snd p) \<and> completed es = [p]
                  \<and> files (fst sl') p = Some (pending sl) \<and> pending sl \<noteq> []
                  \<and> (\<forall>q. matches_final_pattern (snd q) \<and> q \<noteq> p \<longrightarrow>
                         files (fst sl') q = files (fst sl) q)
                  \<and> pending sl' = d)"
    unfolding seg_effect_def by blast
  have n': "new_events s0 (fst sl') = new @ es" using e e' by (simp add: new_events_def)
  have ex: "\<exists>new'. events (fst sl') = events s0 @ new'" using e e' by simp
  from cases show ?thesis
  proof
    assume a: "completed es = []
             \<and> (\<forall>q. matches_final_pattern (snd q) \<longrightarrow> files (fst sl') q = files (fst sl) q)
             \<and> pending sl' = pending sl @ d"
    have same: "\<forall>q\<in>set (completed new). files (fst sl') q = files (fst sl) q"
      using a fin by blast
    have M': "map (content (files (fst sl'))) (completed new) = map concat gs"
      using content_cong[OF same] M by simp
    have fin': "\<forall>p\<in>set (completed new).
        matches_final_pattern (snd p) \<and> files (fst sl') p \<noteq> None"
      using fin same by simp
    let ?g' = "g @ (if d = [] then [] else [d])"
    have P': "pending sl' = concat ?g'" using a P by simp
    have ne': "[] \<notin> set ?g'" using ne(2) by simp
    have "group_inv s0 sl' gs ?g'"
      unfolding group_inv_def n' using ex fin' M' P' ne(1) ne' a by simp
    then show ?thesis by blast
  next
    assume "\<exists>p. matches_final_pattern (snd p) \<and> completed es = [p]
                  \<and> files (fst sl') p = Some (pending sl) \<and> pending sl \<noteq> []
                  \<and> (\<forall>q. matches_final_pattern (snd q) \<and> q \<noteq> p \<longrightarrow>
                         files (fst sl') q = files (fst sl) q)
                  \<and> pending sl' = d"
    then obtain p where p: "matches_final_pattern (snd p)" "completed es = [p]"
        "files (fst sl') p = Some (pending sl)" "pending sl \<noteq> []"
        "\<forall>q. matches_final_pattern (snd q) \<and> q \<noteq> p \<longrightarrow> files (fst sl') q = files (fst sl) q"
        "pending sl' = d" by blast
    have "distinct (completed new @ [p])" using dist p(2) by (simp add: n')
    then have notin: "p \<notin> set (completed new)" by simp
    have same: "\<forall>q\<in>set (completed new). files (fst sl') q = files (fst sl) q"
      using p(5) fin notin by blast
    have M': "map (content (files (fst sl'))) (completed new) = map concat gs"
      using content_cong[OF same] M by simp
    have fin': "\<forall>p\<in>set (completed new).
        matches_final_pattern (snd p) \<and> files (fst sl') p \<noteq> None"
      using fin same by simp
    have gne: "g \<noteq> []" using p(4) P by auto
    have cp: "content (files (fst sl')) p = concat g" using p(3) P by (simp add: content_def)
    let ?g' = "if d = [] then [] else [d]"
    have P': "pending sl' = concat ?g'" using p(6) by simp
    have "group_inv s0 sl' (gs @ [g]) ?g'"
      unfolding group_inv_def n' using ex fin' M' P' ne gne p(1,2,3) cp by simp
    then show ?thesis by force
  qed
qed

lemma seg_effect_pre:
  assumes "events t = events s @ qs" "completed qs = []" "files t = files s"
    "seg_effect (t, l) sl' d"
  shows "seg_effect (s, l) sl' d"
proof -
  from assms(4) obtain es where e: "events (fst sl') = events t @ es"
    and c: "(completed es = []
             \<and> (\<forall>q. matches_final_pattern (snd q) \<longrightarrow> files (fst sl') q = files t q)
             \<and> pending sl' = pending (t, l) @ d)
            \<or> (\<exists>p. matches_final_pattern (snd p) \<and> completed es = [p]
                  \<and> files (fst sl') p = Some (pending (t, l)) \<and> pending (t, l) \<noteq> []
                  \<and> (\<forall>q. matches_final_pattern (snd q) \<and> q \<noteq> p \<longrightarrow>
                         files (fst sl') q = files t q)
                  \<and> pending sl' = d)"
    unfolding seg_effect_def by auto
  have pe: "pending (t, l) = pending (s, l)" using assms(3) by (simp add: pending_def split: option.splits)
  show ?thesis unfolding seg_effect_def
    apply (rule exI[of _ "qs @ es"])
    using e c assms(1,2,3) pe by auto
qed


lemma final_ne_staging:
  "matches_final_pattern (snd q) \<Longrightarrow> q \<noteq> with_suffix (final_path cfg t) ''.tmp''"
  using tmp_not_final by blast

lemma close_current_events_eq:
  "events (close_current s) = events s @
     (case current_file_handle s of None \<Rightarrow> []
      | Some h \<Rightarrow> if f_closed h then [] else [FileClose (f_path h)])"
  by (simp add: close_current_def split: option.splits)

lemma record_chunk_effect:
  assumes inv: "segment_inv cfg (t, l)" and f: "c_fault c = NoFault" and ne: "c_data c \<noteq> []"
  shows "\<exists>t' l'. record_chunk cfg c l t = (Continue, t', l')
           \<and> seg_effect (t, l) (t', l') (c_data c) \<and> is_recording t' = is_recording t"
proof (cases "current_file_path l")
  case None
  then have st: "current_segment_start l = None" using inv by (simp add: segment_inv_def)
  let ?tmp = "with_suffix (final_path cfg (c_now_stamp c)) ''.tmp''"
  let ?t' = "file_write ?tmp (c_data c) (file_open ?tmp (close_current t))"
  let ?l' = "l\<lparr>current_file_path := Some (final_path cfg (c_now_stamp c)),
               current_segment_start := Some (c_now_start c)\<rparr>"
  have cp: "close_previous c l t = (Continue, close_current t)"
    using None f by (simp add: close_previous_def close_current_def Let_def split: option.splits)
  have rc: "record_chunk cfg c l t = (Continue, ?t', ?l')"
    using st cp f by (simp add: record_chunk_def start_segment_def write_chunk_def Let_def)
  let ?es = "(case current_file_handle t of None \<Rightarrow> []
      | Some h \<Rightarrow> if f_closed h then [] else [FileClose (f_path h)])
      @ [FileOpen ?tmp, FileWrite ?tmp (c_data c)]"
  have ev: "events ?t' = events t @ ?es" by (simp add: close_current_events_eq)
  have ce: "completed ?es = []" by (simp split: option.splits)
  have fi: "\<forall>q. matches_final_pattern (snd q) \<longrightarrow> files ?t' q = files t q"
    using final_ne_staging by simp
  have pe: "pending (?t', ?l') = pending (t, l) @ c_data c"
    using None by (simp add: pending_def content_def)
  have "seg_effect (t, l) (?t', ?l') (c_data c)"
    unfolding seg_effect_def
    apply (rule exI[of _ ?es])
    using ev ce fi pe by simp
  moreover have "is_recording ?t' = is_recording t" by simp
  ultimately show ?thesis using rc by blast
next
  case (Some p)
  from inv Some obtain st t0 c0 where st: "current_segment_start l = Some st"
      and p: "p = final_path cfg t0"
      and h: "current_file_handle t = Some \<lparr>f_path = with_suffix p ''.tmp'', f_closed = False\<rparr>"
      and c0: "files t (with_suffix p ''.tmp'') = Some c0" and c0ne: "c0 \<noteq> []"
    by (auto simp: segment_inv_def)
  let ?old = "with_suffix p ''.tmp''"
  have pfin: "matches_final_pattern (snd p)" using p final_is_final by simp
  have pne: "p \<noteq> ?old" using pfin p tmp_not_final by metis
  have pend: "pending (t, l) = c0" using Some c0 by (simp add: pending_def content_def)
  show ?thesis
  proof (cases "segment_expired (c_now_check c) st (segment_duration cfg)")
    case False
    let ?t' = "file_write ?old (c_data c) t"
    have rc: "record_chunk cfg c l t = (Continue, ?t', l)"
      using False st h f by (simp add: record_chunk_def write_chunk_def)
    have fi: "\<forall>q. matches_final_pattern (snd q) \<longrightarrow> files ?t' q = files t q"
      using final_ne_staging p by simp
    have pe: "pending (?t', l) = pending (t, l) @ c_data c"
      using Some c0 by (simp add: pending_def content_def)
    have "seg_effect (t, l) (?t', l) (c_data c)"
      unfolding seg_effect_def
      apply (rule exI[of _ "[FileWrite ?old (c_data c)]"])
      using fi pe by simp
    moreover have "is_recording ?t' = is_recording t" by simp
  ultimately show ?thesis using rc by blast
  next
    case True
    let ?tmp = "with_suffix (final_path cfg (c_now_stamp c)) ''.tmp''"
    let ?t1 = "logger Info (''Completed recording segment: '' @ str_path p)
                 (file_rename ?old p (close_current t))"
    let ?t' = "file_write ?tmp (c_data c) (file_open ?tmp ?t1)"
    let ?l' = "l\<lparr>current_file_path := Some (final_path cfg (c_now_stamp c)),
               current_segment_start := Some (c_now_start c)\<rparr>"
    have cp: "close_previous c l t = (Continue, ?t1)"
      using Some h c0 f by (simp add: close_previous_def Let_def)
    have rc: "record_chunk cfg c l t = (Continue, ?t', ?l')"
      using True st cp f by (simp add: record_chunk_def start_segment_def write_chunk_def Let_def)
    let ?es = "[FileClose ?old, FileRename ?old p,
                Log Info (''Completed recording segment: '' @ str_path p),
                FileOpen ?tmp, FileWrite ?tmp (c_data c)]"
    have ev: "events ?t' = events t @ ?es" using h by (simp add: close_current_events_eq)
    have ptmp: "p \<noteq> ?tmp" using pfin tmp_not_final by metis
    have fp: "files ?t' p = Some (pending (t, l))" "pending (t, l) \<noteq> []"
      using c0 c0ne pend ptmp pne by simp_all
    have fi: "\<forall>q. matches_final_pattern (snd q) \<and> q \<noteq> p \<longrightarrow> files ?t' q = files t q"
      using final_ne_staging p by simp
    have pe: "pending (?t', ?l') = c_data c" by (simp add: pending_def content_def)
    have "seg_effect (t, l) (?t', ?l') (c_data c)"
      unfolding seg_effect_def
      apply (rule exI[of _ ?es])
      apply (rule conjI)
      using ev apply simp
      apply (rule disjI2)
      apply (rule exI[of _ p])
      using pfin fp fi pe by simp
    moreover have "is_recording ?t' = is_recording t" by simp
  ultimately show ?thesis using rc by blast
  qed
qed


lemma stop_segment_effect:
  assumes inv: "segment_inv cfg (t, l)" and f: "c_fault c = NoFault"
  shows "\<exists>t' l'. stop_segment c l t = (Continue, t', l')
           \<and> seg_effect (t, l) (t', l') [] \<and> pending (t', l') = []
           \<and> current_file_handle t' = None"
proof (cases "current_file_path l")
  case None
  show ?thesis
  proof (cases "current_file_handle t")
    case hn: None
    have rc: "stop_segment c l t = (Continue, t, l)" using hn by (simp add: stop_segment_def)
    have pe: "pending (t, l) = []" using None by (simp add: pending_def)
    have "seg_effect (t, l) (t, l) []"
      unfolding seg_effect_def by (rule exI[of _ "[]"]) simp
    then show ?thesis using rc pe hn by blast
  next
    case (Some h)
    let ?t' = "(close_current t)\<lparr>current_file_handle := None\<rparr>"
    let ?l' = "\<lparr>current_segment_start = None, current_file_path = None\<rparr>"
    have rc: "stop_segment c l t = (Continue, ?t', ?l')"
      using Some None f by (simp add: stop_segment_def Let_def)
    have pe: "pending (t, l) = []" "pending (?t', ?l') = []"
      using None by (simp_all add: pending_def)
    have "seg_effect (t, l) (?t', ?l') []"
      unfolding seg_effect_def
      apply (rule exI[of _ "if f_closed h then [] else [FileClose (f_path h)]"])
      using Some pe by (simp add: close_current_events_eq)
    then show ?thesis using rc pe by auto
  qed
next
  case (Some p)
  from inv Some obtain st t0 c0 where p: "p = final_path cfg t0"
      and h: "current_file_handle t = Some \<lparr>f_path = with_suffix p ''.tmp'', f_closed = False\<rparr>"
      and c0: "files t (with_suffix p ''.tmp'') = Some c0" and c0ne: "c0 \<noteq> []"
    by (auto simp: segment_inv_def)
  let ?old = "with_suffix p ''.tmp''"
  have pfin: "matches_final_pattern (snd p)" using p final_is_final by simp
  have pne: "p \<noteq> ?old" using pfin p tmp_not_final by metis
  have pend: "pending (t, l) = c0" using Some c0 by (simp add: pending_def content_def)
  let ?t' = "logger Info (''Completed recording segment: '' @ str_path p)
               (file_rename ?old p ((close_current t)\<lparr>current_file_handle := None\<rparr>))"
  let ?l' = "\<lparr>current_segment_start = None, current_file_path = None\<rparr>"
  have rc: "stop_segment c l t = (Continue, ?t', ?l')"
    using Some h c0 f by (simp add: stop_segment_def Let_def)
  let ?es = "[FileClose ?old, FileRename ?old p,
              Log Info (''Completed recording segment: '' @ str_path p)]"
  have ev: "events ?t' = events t @ ?es" using h by (simp add: close_current_events_eq)
  have fp: "files ?t' p = Some (pending (t, l))" "pending (t, l) \<noteq> []"
    using c0 c0ne pend by simp_all
  have fi: "\<forall>q. matches_final_pattern (snd q) \<and> q \<noteq> p \<longrightarrow> files ?t' q = files t q"
    using final_ne_staging p by simp
  have pe: "pending (?t', ?l') = []" by (simp add: pending_def)
  have "seg_effect (t, l) (?t', ?l') []"
    unfolding seg_effect_def
    apply (rule exI[of _ ?es])
    apply (rule conjI)
    using ev apply simp
    apply (rule disjI2)
    apply (rule exI[of _ p])
    using pfin fp fi pe by simp
  moreover have "current_file_handle ?t' = None" by simp
  ultimately show ?thesis using rc pe by blast
qed

lemma toggles_is_recording:
  "is_recording (fold set_is_recording ts s) = (if ts = [] then is_recording s else last ts)"
proof (induction ts arbitrary: s)
  case Nil show ?case by simp
next
  case (Cons t ts)
  have "is_recording (set_is_recording t s) = t" by (simp add: set_is_recording_eq)
  then show ?case using Cons.IH[of "set_is_recording t s"] by simp
qed

lemma relay_step_chunk:
  assumes inv: "segment_inv cfg (s, l)"
    and cam: "camera_process s = Some cam" and ff: "ffmpeg_process s = Some ff"
    and data: "c_data c \<noteq> []" and ok: "c_hls_ok c" and f: "c_fault c = NoFault"
  shows "is_recording (fold set_is_recording (c_toggles c) s) \<Longrightarrow>
           \<exists>s' l'. relay_step cfg c (s, l) = (Continue, s', l')
             \<and> seg_effect (s, l) (s', l') (c_data c) \<and> is_recording s'"
    and "\<not> is_recording (fold set_is_recording (c_toggles c) s) \<Longrightarrow>
           \<exists>s' l'. relay_step cfg c (s, l) = (Continue, s', l')
             \<and> seg_effect (s, l) (s', l') [] \<and> pending (s', l') = []
             \<and> current_file_handle s' = None"
proof -
  let ?s0 = "fold set_is_recording (c_toggles c) s"
  let ?t = "emit [StdinWrite ff (c_data c)] ?s0"
  have it: "segment_inv cfg (?t, l)" by (rule segment_inv_cong[OF inv]) simp_all
  obtain es where es: "events ?s0 = events s @ es" "\<forall>e\<in>set es. no_file_event e"
    using toggles_events by blast
  have ev: "events ?t = events s @ (es @ [StdinWrite ff (c_data c)])" using es(1) by simp
  have ce: "completed (es @ [StdinWrite ff (c_data c)]) = []"
    using completed_no_file[OF es(2)] by simp
  have fs: "files ?t = files s" by simp
  {
    assume rec: "is_recording ?s0"
    have rs: "relay_step cfg c (s, l) = record_chunk cfg c l ?t"
      using cam ff rec data ok by (simp add: relay_step_def Let_def)
    from record_chunk_effect[OF it f data] obtain t' l' where
      r: "record_chunk cfg c l ?t = (Continue, t', l')" "seg_effect (?t, l) (t', l') (c_data c)"
         "is_recording t' = is_recording ?t" by blast
    have "seg_effect (s, l) (t', l') (c_data c)" by (rule seg_effect_pre[OF ev ce fs r(2)])
    then show "\<exists>s' l'. relay_step cfg c (s, l) = (Continue, s', l')
             \<and> seg_effect (s, l) (s', l') (c_data c) \<and> is_recording s'"
      using rs r rec by simp
  }
  {
    assume rec: "\<not> is_recording ?s0"
    have rs: "relay_step cfg c (s, l) = stop_segment c l ?t"
      using cam ff rec data ok by (simp add: relay_step_def Let_def)
    from stop_segment_effect[OF it f] obtain t' l' where
      r: "stop_segment c l ?t = (Continue, t', l')" "seg_effect (?t, l) (t', l') []"
         "pending (t', l') = []" "current_file_handle t' = None" by blast
    have "seg_effect (s, l) (t', l') []" by (rule seg_effect_pre[OF ev ce fs r(2)])
    then show "\<exists>s' l'. relay_step cfg c (s, l) = (Continue, s', l')
             \<and> seg_effect (s, l) (s', l') [] \<and> pending (s', l') = []
             \<and> current_file_handle s' = None"
      using rs r by simp
  }
qed


lemma distinct_completed_prefix:
  assumes "events s1 = events s0 @ n1" "events s2 = events s1 @ n2"
    "distinct (completed (new_events s0 s2))"
  shows "distinct (completed (new_events s0 s1))"
  using assms by (simp add: new_events_def)

lemma interval_archived:
  assumes "segment_inv cfg (s1, l1)"
    and "camera_process s1 = Some cam" and "ffmpeg_process s1 = Some ff"
    and "group_inv s0 (s1, l1) gs g"
    and "recorded_interval (is_recording s1) cs"
    and "c_data e \<noteq> []" and "c_hls_ok e" and "c_fault e = NoFault"
    and "c_toggles e \<noteq> []" and "\<not> last (c_toggles e)"
    and "relay_steps cfg (cs @ [e]) (s1, l1) = (fl, sF, lF)"
    and "distinct (completed (new_events s0 sF))"
  shows "fl = Continue
     \<and> (\<exists>gs'. group_inv s0 (sF, lF) gs' [] \<and> concat gs' = concat gs @ g @ map c_data cs)
     \<and> current_file_handle sF = None"
  using assms
proof (induction cs arbitrary: s1 l1 gs g)
  case Nil
  have nrec: "\<not> is_recording (fold set_is_recording (c_toggles e) s1)"
    using Nil.prems(9,10) by (simp add: toggles_is_recording)
  from relay_step_chunk(2)[OF Nil.prems(1,2,3,6,7,8) nrec] obtain s' l' where
    r: "relay_step cfg e (s1, l1) = (Continue, s', l')" "seg_effect (s1, l1) (s', l') []"
       "pending (s', l') = []" "current_file_handle s' = None" by blast
  have eq: "fl = Continue" "sF = s'" "lF = l'" using Nil.prems(11) r(1) by simp_all
  have d: "distinct (completed (new_events s0 (fst (s', l'))))" using Nil.prems(12) eq by simp
  from group_step[OF Nil.prems(4) r(2) d] obtain gs' g' where
    g: "group_inv s0 (s', l') gs' g'" "concat gs' @ g' = concat gs @ g" by auto
  have "concat g' = []" "[] \<notin> set g'" using g(1) r(3) by (simp_all add: group_inv_def)
  then have "g' = []" using concat_nonempty by blast
  then have "group_inv s0 (s', l') gs' [] \<and> concat gs' = concat gs @ g @ map c_data []"
    using g by simp
  then show ?case using eq r(4) by blast
next
  case (Cons c cs)
  have c: "c_data c \<noteq> []" "c_hls_ok c" "c_fault c = NoFault"
    and rec: "is_recording (fold set_is_recording (c_toggles c) s1)"
    and rest: "recorded_interval True cs"
    using Cons.prems(5) by (simp_all add: toggles_is_recording)
  from relay_step_chunk(1)[OF Cons.prems(1,2,3) c rec] obtain s2 l2 where
    r: "relay_step cfg c (s1, l1) = (Continue, s2, l2)" "seg_effect (s1, l1) (s2, l2) (c_data c)"
       "is_recording s2" by blast
  have inv2: "segment_inv cfg (s2, l2)" using relay_step_inv[OF Cons.prems(1) r(1)] by simp
  have pr2: "camera_process s2 = Some cam" "ffmpeg_process s2 = Some ff"
    using relay_step_procs[OF r(1)] Cons.prems(2,3) by simp_all
  have run: "relay_steps cfg (cs @ [e]) (s2, l2) = (fl, sF, lF)"
    using Cons.prems(11) r(1) by simp
  from Cons.prems(4) obtain n1 where n1: "events s1 = events s0 @ n1"
    by (auto simp: group_inv_def)
  from r(2) obtain n2 where n2: "events s2 = events s1 @ n2"
    by (auto simp: seg_effect_def)
  from archive_step_events[of s2 sF] relay_steps_inv[OF inv2 run]
  obtain n3 where n3: "events sF = events s2 @ n3" by blast
  have e2: "events s2 = events s0 @ (n1 @ n2)" using n1 n2 by simp
  have d2: "distinct (completed (new_events s0 (fst (s2, l2))))"
    using distinct_completed_prefix[OF e2 n3 Cons.prems(12)] by simp
  from group_step[OF Cons.prems(4) r(2) d2] c(1) obtain gs2 g2 where
    g2: "group_inv s0 (s2, l2) gs2 g2" "concat gs2 @ g2 = concat gs @ g @ [c_data c]" by auto
  have ri: "recorded_interval (is_recording s2) cs" using rest r(3) by simp
  from Cons.IH[OF inv2 pr2 g2(1) ri Cons.prems(6,7,8,9,10) run Cons.prems(12)]
  obtain gs' where f: "fl = Continue" "group_inv s0 (sF, lF) gs' []"
      "concat gs' = concat gs2 @ g2 @ map c_data cs" "current_file_handle sF = None"
    by blast
  have "concat gs' = concat gs @ g @ map c_data (c # cs)" using f(3) g2(2) by simp
  then show ?case using f by blast
qed


lemma strftime_ex_later: "strftime ex_later = ''2024-05-17_09-19-07''"
  by (simp add: strftime_def ex_later_def ex_now_def zpad_def nat_digits.simps digit_char_def)

lemma ex_paths_later:
  "final_path ex_cfg ex_later = ex_final_later"
  "with_suffix ex_final_later ''.tmp'' = (''/data/camera'', ''raw_2024-05-17_09-19-07.tmp'')"
proof -
  show a: "final_path ex_cfg ex_later = ex_final_later"
    by (simp add: final_path_def strftime_ex_later ex_cfg_def ex_final_later_def)
  show "with_suffix ex_final_later ''.tmp'' = (''/data/camera'', ''raw_2024-05-17_09-19-07.tmp'')"
    using with_suffix_final_path[of ex_cfg ex_later] unfolding a
    by (simp add: strftime_ex_later ex_cfg_def)
qed

lemma ex_expired: "segment_expired ex_later ex_now (segment_duration ex_cfg)"
  by (simp add: segment_expired_def to_microseconds_def ex_later_def ex_now_def ex_cfg_def)

lemma ex_interval_events:
  "new_events ex_started (relay_state ex_cfg (ex_interval @ [ex_closing]) ex_started)
    = [Log Info ''Recording enabled'',
       StdinWrite (Proc Transcode 101) [1, 2],
       FileOpen ex_staging, FileWrite ex_staging [1, 2],
       StdinWrite (Proc Transcode 101) [3],
       FileClose ex_staging, FileRename ex_staging ex_final,
       Log Info (''Completed recording segment: '' @ str_path ex_final),
       FileOpen (''/data/camera'', ''raw_2024-05-17_09-19-07.tmp''),
       FileWrite (''/data/camera'', ''raw_2024-05-17_09-19-07.tmp'') [3],
       Log Info ''Recording disabled'',
       StdinWrite (Proc Transcode 101) [4],
       FileClose (''/data/camera'', ''raw_2024-05-17_09-19-07.tmp''),
       FileRename (''/data/camera'', ''raw_2024-05-17_09-19-07.tmp'') ex_final_later,
       Log Info (''Completed recording segment: '' @ str_path ex_final_later)]"
  by (simp add: relay_state_def ex_interval_def ex_closing_def ex_chunk_later_def relay_defs
        ex_defs ex_paths ex_paths_later ex_expired new_events_def ex_staging_def ex_final_def)


lemma ex_interval_hyps:
  "camera_process ex_started = Some (Proc Capture 100)"
  "ffmpeg_process ex_started = Some (Proc Transcode 101)"
  "recorded_interval (is_recording ex_started) ex_interval"
  "c_data ex_closing \<noteq> []" "c_hls_ok ex_closing" "c_fault ex_closing = NoFault"
  "c_toggles ex_closing \<noteq> []" "\<not> last (c_toggles ex_closing)"
  by (simp_all add: ex_interval_def ex_closing_def ex_chunk_later_def ex_defs)

lemma ex_interval_names:
  "distinct (completed (new_events ex_started
      (relay_state ex_cfg (ex_interval @ [ex_closing]) ex_started)))"
  unfolding ex_interval_events by (simp add: ex_final_def ex_final_later_def)


lemma ex_interval_files:
  "files (relay_state ex_cfg (ex_interval @ [ex_closing]) ex_started) ex_final = Some [1, 2]"
  "files (relay_state ex_cfg (ex_interval @ [ex_closing]) ex_started) ex_final_later = Some [3]"
  by (simp_all add: relay_state_def ex_interval_def ex_closing_def ex_chunk_later_def relay_defs
        ex_defs ex_paths ex_paths_later ex_paths_later[unfolded ex_final_later_def] ex_expired
        ex_final_def ex_final_later_def)

text \<open>
  C3, as the code has it: in one pipeline, start where no segment is open. Let every chunk
  of a sequence be read with \<open>is_recording\<close> set, be delivered to the transcode process and
  be archived without an I/O error, and let the next chunk iteration observe the flag cleared
  and close the segment without an error. If the final names produced in between are
  pairwise distinct, then the sequence of chunks splits into consecutive groups, none of them
  empty, such that the final files produced hold, in order of production, one group each:
  the first file is the concatenation of the chunks of the first group, and so on. So every
  chunk lies whole in exactly one final file, the files concatenated in order of production
  hold exactly the chunks of the sequence in their order, each of these files exists under a
  final name, and no segment is left open.
\<close>

theorem enabled_interval_archived_in_order:
  assumes procs: "camera_process s = Some cam" "ffmpeg_process s = Some ff"
    and interval: "recorded_interval (is_recording s) cs"
    and closing: "c_data e \<noteq> []" "c_hls_ok e" "c_fault e = NoFault"
       "c_toggles e \<noteq> []" "\<not> last (c_toggles e)"
    and names: "distinct (completed (new_events s (relay_state cfg (cs @ [e]) s)))"
  shows "fst (relay_steps cfg (cs @ [e]) (s, fresh_locals)) = Continue
     \<and> (\<exists>gs. concat gs = map c_data cs \<and> [] \<notin> set gs
           \<and> map (content (files (relay_state cfg (cs @ [e]) s)))
                 (completed (new_events s (relay_state cfg (cs @ [e]) s)))
               = map concat gs)
     \<and> archived s (relay_state cfg (cs @ [e]) s) = concat (map c_data cs)
     \<and> (\<forall>p\<in>set (completed (new_events s (relay_state cfg (cs @ [e]) s))).
           matches_final_pattern (snd p) \<and> files (relay_state cfg (cs @ [e]) s) p \<noteq> None)
     \<and> current_file_handle (relay_state cfg (cs @ [e]) s) = None"
proof -
  obtain fl sF lF where run: "relay_steps cfg (cs @ [e]) (s, fresh_locals) = (fl, sF, lF)"
    by (cases "relay_steps cfg (cs @ [e]) (s, fresh_locals)")
  have sF: "relay_state cfg (cs @ [e]) s = sF" using run by (simp add: relay_state_def)
  have g0: "group_inv s (s, fresh_locals) [] []"
    by (simp add: group_inv_def new_events_def pending_def fresh_locals_def)
  from interval_archived[OF segment_inv_fresh procs g0 interval closing run names[unfolded sF]]
  obtain gs where r: "fl = Continue" "group_inv s (sF, lF) gs []" "concat gs = map c_data cs"
    "current_file_handle sF = None" by auto
  from r(2) have m: "map (content (files sF)) (completed (new_events s sF)) = map concat gs"
    and ne: "[] \<notin> set gs"
    and fin: "\<forall>p\<in>set (completed (new_events s sF)).
        matches_final_pattern (snd p) \<and> files sF p \<noteq> None"
    by (simp_all add: group_inv_def)
  have a: "archived s sF = concat (map c_data cs)"
    unfolding archived_def m concat_groups r(3) ..
  have g: "\<exists>gs. concat gs = map c_data cs \<and> [] \<notin> set gs
           \<and> map (content (files sF)) (completed (new_events s sF)) = map concat gs"
    using r(3) ne m by blast
  have c: "fst (relay_steps cfg (cs @ [e]) (s, fresh_locals)) = Continue"
    using run r(1) by simp
  show ?thesis unfolding sF using c g a fin r(4) by blast
qed

theorem enabled_interval_archived_in_order_witness:
  "camera_process ex_started = Some (Proc Capture 100)
   \<and> ffmpeg_process ex_started = Some (Proc Transcode 101)
   \<and> recorded_interval (is_recording ex_started) ex_interval
   \<and> c_data ex_closing \<noteq> [] \<and> c_hls_ok ex_closing \<and> c_fault ex_closing = NoFault
   \<and> c_toggles ex_closing \<noteq> [] \<and> \<not> last (c_toggles ex_closing)
   \<and> distinct (completed (new_events ex_started
         (relay_state ex_cfg (ex_interval @ [ex_closing]) ex_started)))
   \<and> fst (relay_steps ex_cfg (ex_interval @ [ex_closing]) (ex_started, fresh_locals)) = Continue
   \<and> (\<exists>gs. concat gs = map c_data ex_interval \<and> [] \<notin> set gs
         \<and> map (content (files (relay_state ex_cfg (ex_interval @ [ex_closing]) ex_started)))
               (completed (new_events ex_started
                  (relay_state ex_cfg (ex_interval @ [ex_closing]) ex_started)))
             = map concat gs)
   \<and> map c_data ex_interval = [[1, 2], [3]]
   \<and> map (content (files (relay_state ex_cfg (ex_interval @ [ex_closing]) ex_started)))
         (completed (new_events ex_started
            (relay_state ex_cfg (ex_interval @ [ex_closing]) ex_started)))
       = [[1, 2], [3]]
   \<and> archived ex_started (relay_state ex_cfg (ex_interval @ [ex_closing]) ex_started)
       = concat (map c_data ex_interval)
   \<and> concat (map c_data ex_interval) = [1, 2, 3]
   \<and> completed (new_events ex_started
         (relay_state ex_cfg (ex_interval @ [ex_closing]) ex_started)) = [ex_final, ex_final_later]
   \<and> matches_final_pattern (snd ex_final)
   \<and> files (relay_state ex_cfg (ex_interval @ [ex_closing]) ex_started) ex_final \<noteq> None
   \<and> matches_final_pattern (snd ex_final_later)
   \<and> files (relay_state ex_cfg (ex_interval @ [ex_closing]) ex_started) ex_final_later \<noteq> None
   \<and> current_file_handle (relay_state ex_cfg (ex_interval @ [ex_closing]) ex_started) = None"
proof -
  note t = enabled_interval_archived_in_order[OF ex_interval_hyps ex_interval_names]
  have c: "completed (new_events ex_started
         (relay_state ex_cfg (ex_interval @ [ex_closing]) ex_started)) = [ex_final, ex_final_later]"
    unfolding ex_interval_events by simp
  have d: "map c_data ex_interval = [[1, 2], [3]]" "concat (map c_data ex_interval) = [1, 2, 3]"
    by (simp_all add: ex_interval_def ex_chunk_later_def ex_defs)
  have m: "map (content (files (relay_state ex_cfg (ex_interval @ [ex_closing]) ex_started)))
         (completed (new_events ex_started
            (relay_state ex_cfg (ex_interval @ [ex_closing]) ex_started)))
       = [[1, 2], [3]]"
    unfolding c by (simp add: content_def ex_interval_files)
  from t c have f: "matches_final_pattern (snd ex_final)
     \<and> files (relay_state ex_cfg (ex_interval @ [ex_closing]) ex_started) ex_final \<noteq> None
     \<and> matches_final_pattern (snd ex_final_later)
     \<and> files (relay_state ex_cfg (ex_interval @ [ex_closing]) ex_started) ex_final_later \<noteq> None"
    by simp
  show ?thesis using t c d m f ex_interval_hyps ex_interval_names by blast
qed

text \<open>
  C3 as stated fails. A chunk \<open>[1, 2]\<close> is read and recorded with \<open>is_recording\<close> set; the
  capture process then exits with status 1; in the next pipeline the flag is found cleared:
  no file gets a final name, the chunk stays in the staging file. And with a segment
  duration of 0 two rotations fall into the same second: the second final file replaces the
  first, and the chunk \<open>[1, 2]\<close> is in no file.
\<close>

theorem chunk_in_no_final_file_counterexample:
  "delivered (snd (camera_streaming_loop ex_cfg ex_crash_run ex_fresh)) = [[1, 2], [3]]
   \<and> completed (events (snd (camera_streaming_loop ex_cfg ex_crash_run ex_fresh))) = []
   \<and> files (snd (camera_streaming_loop ex_cfg ex_crash_run ex_fresh)) ex_final = None
   \<and> files (snd (camera_streaming_loop ex_cfg ex_crash_run ex_fresh)) ex_staging = Some [1, 2]
   \<and> fst (relay_steps ex_cfg_zero ex_same_second (ex_started, fresh_locals)) = Continue
   \<and> completed (new_events ex_started (relay_state ex_cfg_zero ex_same_second ex_started))
       = [ex_final, ex_final]
   \<and> files (relay_state ex_cfg_zero ex_same_second ex_started) ex_final = Some [3]
   \<and> files (relay_state ex_cfg_zero ex_same_second ex_started) ex_staging = None"
proof -
  have z: "final_path ex_cfg_zero ex_now = (''/data/camera'', ''raw_2024-05-17_09-03-07.h264'')"
    "segment_duration ex_cfg_zero = 0"
    using ex_paths(1) by (simp_all add: final_path_def ex_cfg_zero_def)
  have x: "segment_expired ex_now ex_now 0" by (simp add: segment_expired_def)
  have a: "delivered (snd (camera_streaming_loop ex_cfg ex_crash_run ex_fresh)) = [[1, 2], [3]]
   \<and> completed (events (snd (camera_streaming_loop ex_cfg ex_crash_run ex_fresh))) = []
   \<and> files (snd (camera_streaming_loop ex_cfg ex_crash_run ex_fresh)) ex_final = None
   \<and> files (snd (camera_streaming_loop ex_cfg ex_crash_run ex_fresh)) ex_staging = Some [1, 2]"
    by (simp add: ex_crash_run_def relay_defs pipeline_defs ex_defs ex_more_defs ex_paths
          delivered_def completed_def ex_final_def ex_staging_def)
  have b: "fst (relay_steps ex_cfg_zero ex_same_second (ex_started, fresh_locals)) = Continue
   \<and> completed (new_events ex_started (relay_state ex_cfg_zero ex_same_second ex_started))
       = [ex_final, ex_final]
   \<and> files (relay_state ex_cfg_zero ex_same_second ex_started) ex_final = Some [3]
   \<and> files (relay_state ex_cfg_zero ex_same_second ex_started) ex_staging = None"
    by (simp add: ex_same_second_def relay_state_def relay_defs ex_defs ex_paths z x
          new_events_def completed_def ex_final_def ex_staging_def)
  show ?thesis using a b by blast
qed


end
